theory Spec2Isabelle
  imports Main
begin

section \<open>Go strings: byte sequences read as UTF-8\<close>

text \<open>
  A Go \<open>string\<close> is a sequence of bytes; \<open>len\<close> counts bytes and slicing cuts at byte
  positions. It is modelled as \<^typ>\<open>string\<close> (a list of 8-bit characters). A
  \<open>for _, r := range s\<close> loop reads the bytes as UTF-8, one rune at a time, and yields
  the replacement rune of width 1 for a byte that starts no well-formed sequence, as
  \<open>utf8.DecodeRuneInString\<close> does.
\<close>

definition byte :: "char \<Rightarrow> int" where
  "byte c = of_char c"

definition RuneError :: int where
  "RuneError = 0xFFFD"

definition cont :: "int \<Rightarrow> bool" where
  \<comment> \<open>a continuation byte, between \<open>locb\<close> and \<open>hicb\<close>\<close>
  "cont b \<longleftrightarrow> 0x80 \<le> b \<and> b \<le> 0xBF"

definition seqSize :: "int \<Rightarrow> nat" where
  \<comment> \<open>the length announced by a first byte; 0 for a byte that cannot start a sequence\<close>
  "seqSize s0 =
     (if s0 < 0x80 then 1
      else if s0 < 0xC2 then 0
      else if s0 < 0xE0 then 2
      else if s0 < 0xF0 then 3
      else if s0 < 0xF5 then 4
      else 0)"

definition acceptLo :: "int \<Rightarrow> int" where
  "acceptLo s0 = (if s0 = 0xE0 then 0xA0 else if s0 = 0xF0 then 0x90 else 0x80)"

definition acceptHi :: "int \<Rightarrow> int" where
  "acceptHi s0 = (if s0 = 0xED then 0x9F else if s0 = 0xF4 then 0x8F else 0xBF)"

fun decodeRune :: "string \<Rightarrow> int \<times> nat" where
  "decodeRune [] = (RuneError, 0)"
| "decodeRune (c0 # cs) =
     (let s0 = byte c0; sz = seqSize s0 in
      if sz = 1 then (s0, 1)
      else if sz = 0 then (RuneError, 1)
      else if length (c0 # cs) < sz then (RuneError, 1)
      else
        let s1 = byte (cs ! 0) in
        if s1 < acceptLo s0 \<or> acceptHi s0 < s1 then (RuneError, 1)
        else if sz \<le> 2 then ((s0 mod 32) * 64 + s1 mod 64, 2)
        else
          let s2 = byte (cs ! 1) in
          if \<not> cont s2 then (RuneError, 1)
          else if sz \<le> 3 then ((s0 mod 16) * 4096 + (s1 mod 64) * 64 + s2 mod 64, 3)
          else
            let s3 = byte (cs ! 2) in
            if \<not> cont s3 then (RuneError, 1)
            else ((s0 mod 8) * 262144 + (s1 mod 64) * 4096 + (s2 mod 64) * 64 + s3 mod 64, 4))"

lemma decodeRune_width_pos: "0 < snd (decodeRune (c # cs))"
  by (simp add: Let_def)

lemma decodeRune_width_le4: "snd (decodeRune s) \<le> 4"
  by (cases s) (simp_all add: Let_def)

text \<open>
  \<open>utf16CodeUnitCount\<close>: the number of UTF-16 code units of a string. The counter is an
  \<open>int64\<close> that a string in memory cannot overflow; it is an \<^typ>\<open>int\<close> here.
\<close>

function utf16CodeUnitCount :: "string \<Rightarrow> int" where
  "utf16CodeUnitCount [] = 0"
| "utf16CodeUnitCount (c # cs) =
     (case decodeRune (c # cs) of
        (r, w) \<Rightarrow> (if r \<ge> 0x10000 then 2 else 1) + utf16CodeUnitCount (drop w (c # cs)))"
  by pat_completeness auto
termination
  apply (relation "measure length")
   apply simp
  subgoal for c cs x1 x2
    using decodeRune_width_pos [of c cs] by (cases "decodeRune (c # cs)") auto
  done


text \<open>
  \<open>utf8.DecodeLastRuneInString\<close>: steps back over at most three continuation bytes to
  a byte that can start a rune, decodes from there, and accepts the rune only when it
  ends exactly at the end of the string.
\<close>

function backScan :: "string \<Rightarrow> int \<Rightarrow> int \<Rightarrow> int" where
  "backScan s start lim =
     (if start \<ge> lim then
        (if \<not> cont (byte (s ! nat start)) then start else backScan s (start - 1) lim)
      else start)"
  by pat_completeness auto
termination
  by (relation "measure (\<lambda>(s, start, lim). nat (start - lim + 1))") auto

definition decodeLastRune :: "string \<Rightarrow> int \<times> nat" where
  "decodeLastRune s =
     (let end = int (length s) in
      if end = 0 then (RuneError, 0)
      else
        let r = byte (s ! nat (end - 1)) in
        if r < 0x80 then (r, 1)
        else
          let lim = max (end - 4) 0;
              start = backScan s (end - 2) lim;
              start = (if start < 0 then 0 else start);
              (r, size) = decodeRune (drop (nat start) s)
          in if start + int size \<noteq> end then (RuneError, 1) else (r, size))"

definition isSpace :: "int \<Rightarrow> bool" where
  \<comment> \<open>\<open>unicode.IsSpace\<close>: the White Space property\<close>
  "isSpace r \<longleftrightarrow>
     (0x09 \<le> r \<and> r \<le> 0x0D) \<or> r = 0x20 \<or> r = 0x85 \<or> r = 0xA0 \<or> r = 0x1680 \<or>
     (0x2000 \<le> r \<and> r \<le> 0x200A) \<or> r = 0x2028 \<or> r = 0x2029 \<or> r = 0x202F \<or>
     r = 0x205F \<or> r = 0x3000"

section \<open>The functions of package \<open>strings\<close> that the converter calls\<close>

definition HasPrefix :: "string \<Rightarrow> string \<Rightarrow> bool" where
  "HasPrefix s p \<longleftrightarrow> take (length p) s = p"

definition TrimPrefix :: "string \<Rightarrow> string \<Rightarrow> string" where
  "TrimPrefix s p = (if HasPrefix s p then drop (length p) s else s)"

text \<open>\<open>strings.Index\<close>: the byte index of the first occurrence, or \<open>-1\<close>.\<close>

fun Index :: "string \<Rightarrow> string \<Rightarrow> int" where
  "Index [] substr = (if substr = [] then 0 else - 1)"
| "Index (c # cs) substr =
     (if HasPrefix (c # cs) substr then 0
      else let i = Index cs substr in if i = - 1 then - 1 else i + 1)"

text \<open>\<open>strings.Split(s, "\n")\<close>: one more piece than there are newlines.\<close>

fun Split :: "string \<Rightarrow> string list" where
  "Split [] = [[]]"
| "Split (c # cs) =
     (if c = CHR 0x0A then [] # Split cs
      else (case Split cs of l # ls \<Rightarrow> (c # l) # ls | [] \<Rightarrow> [[c]]))"

text \<open>\<open>strings.TrimRight(s, cutset)\<close> for a cutset of one ASCII character.\<close>

definition TrimRight :: "string \<Rightarrow> char \<Rightarrow> string" where
  "TrimRight s c = rev (dropWhile (\<lambda>x. x = c) (rev s))"

text \<open>
  \<open>strings.TrimSpace\<close> removes the leading and the trailing runes that are white space;
  its ASCII fast path and the \<open>TrimFunc\<close> it falls back on compute this.
\<close>

function trimLeftSpace :: "string \<Rightarrow> string" where
  "trimLeftSpace [] = []"
| "trimLeftSpace (c # cs) =
     (case decodeRune (c # cs) of
        (r, w) \<Rightarrow> if isSpace r then trimLeftSpace (drop w (c # cs)) else c # cs)"
  by pat_completeness auto
termination
  apply (relation "measure length")
   apply simp
  subgoal for c cs x1 x2
    using decodeRune_width_pos [of c cs] by (cases "decodeRune (c # cs)") auto
  done


lemma backScan_le: "backScan s start lim \<le> start"
proof (induction s start lim rule: backScan.induct)
  case (1 s start lim)
  show ?case
  proof (cases "start \<ge> lim \<and> cont (byte (s ! nat start))")
    case True
    then have "backScan s start lim = backScan s (start - 1) lim" by simp
    moreover have "backScan s (start - 1) lim \<le> start - 1" using 1 True by simp
    ultimately show ?thesis by simp
  next
    case False
    then show ?thesis by auto
  qed
qed

lemma decodeLastRune_width_pos:
  assumes "s \<noteq> []"
  shows "0 < snd (decodeLastRune s)"
proof -
  define e where "e = int (length s)"
  define st where "st = (let b = backScan s (e - 2) (max (e - 4) 0) in if b < 0 then 0 else b)"
  have e: "0 < e" using assms by (simp add: e_def)
  have "backScan s (e - 2) (max (e - 4) 0) \<le> e - 2" by (rule backScan_le)
  then have st: "0 \<le> st" "st < e" using e by (auto simp: st_def Let_def)
  obtain r w where rw: "decodeRune (drop (nat st) s) = (r, w)" by (cases "decodeRune (drop (nat st) s)")
  have "drop (nat st) s \<noteq> []" using st by (simp add: e_def)
  then obtain c cs where "drop (nat st) s = c # cs" by (cases "drop (nat st) s") auto
  then have "0 < w" using decodeRune_width_pos [of c cs] rw by simp
  then show ?thesis
    using e rw unfolding decodeLastRune_def e_def [symmetric] st_def Let_def
    by (auto simp: e_def split: if_splits prod.splits)
qed

function trimRightSpace :: "string \<Rightarrow> string" where
  "trimRightSpace s =
     (if s = [] then []
      else (case decodeLastRune s of
              (r, w) \<Rightarrow> if isSpace r then trimRightSpace (take (length s - w) s) else s))"
  by pat_completeness auto
termination
  apply (relation "measure length")
   apply simp
  subgoal for s x1 x2
    using decodeLastRune_width_pos [of s] by (cases "decodeLastRune s") auto
  done

definition TrimSpace :: "string \<Rightarrow> string" where
  "TrimSpace s = trimRightSpace (trimLeftSpace s)"


lemma HasPrefix_length: "HasPrefix s p \<Longrightarrow> length p \<le> length s"
  unfolding HasPrefix_def by (metis length_take min.cobounded2 min.commute)

lemma Index_range: "Index s p = - 1 \<or> (0 \<le> Index s p \<and> nat (Index s p) + length p \<le> length s)"
proof (induction s)
  case Nil
  then show ?case by simp
next
  case (Cons c cs)
  show ?case
  proof (cases "HasPrefix (c # cs) p")
    case True
    with HasPrefix_length [OF True] show ?thesis by simp
  next
    case False
    with Cons show ?thesis by (auto simp: Let_def)
  qed
qed

section \<open>\<open>writeMarkdownToDoc\<close>: from markdown to segments\<close>

record formatRange =
  rstart :: int
  rend :: int
  bold :: bool
  italic :: bool

record segment =
  seg_text :: string
  style :: string
  isBullet :: bool
  isNumbered :: bool
  ranges :: "formatRange list"

text \<open>
  The bold and italic scan of one line is the \<open>for\<close> loop over \<open>tempText\<close>; its state is
  \<open>tempText\<close>, the builder \<open>cleanText\<close>, the running \<open>currentOffset\<close> and the ranges
  recorded so far. The two branches of its body come first, then the body, then the loop.
\<close>

type_synonym scan = "string \<times> string \<times> int \<times> formatRange list"

definition boldBranch :: "string \<Rightarrow> string \<Rightarrow> int \<Rightarrow> formatRange list \<Rightarrow> int \<Rightarrow> scan" where
  "boldBranch tempText cleanText currentOffset rs boldStart =
     (let beforeBold = take (nat boldStart) tempText;
          cleanText = cleanText @ beforeBold;
          currentOffset = currentOffset + utf16CodeUnitCount beforeBold;
          tempText = drop (nat boldStart + 2) tempText;
          boldEnd = Index tempText ''**''
      in
      if boldEnd \<noteq> - 1 then
        (let innerText = take (nat boldEnd) tempText in
         (drop (nat boldEnd + 2) tempText, cleanText @ innerText,
          currentOffset + utf16CodeUnitCount innerText,
          rs @ [\<lparr>rstart = currentOffset,
                  rend = currentOffset + utf16CodeUnitCount innerText,
                  bold = True, italic = False\<rparr>]))
      else (tempText, cleanText @ ''**'', currentOffset + 2, rs))"

definition italicBranch :: "string \<Rightarrow> string \<Rightarrow> int \<Rightarrow> formatRange list \<Rightarrow> int \<Rightarrow> scan" where
  "italicBranch tempText cleanText currentOffset rs italicStart =
     (let beforeItalic = take (nat italicStart) tempText;
          cleanText = cleanText @ beforeItalic;
          currentOffset = currentOffset + utf16CodeUnitCount beforeItalic;
          tempText = drop (nat italicStart + 1) tempText;
          italicEnd = Index tempText ''*''
      in
      if italicEnd \<noteq> - 1 then
        (let innerText = take (nat italicEnd) tempText in
         (drop (nat italicEnd + 1) tempText, cleanText @ innerText,
          currentOffset + utf16CodeUnitCount innerText,
          rs @ [\<lparr>rstart = currentOffset,
                  rend = currentOffset + utf16CodeUnitCount innerText,
                  bold = False, italic = True\<rparr>]))
      else (tempText, cleanText @ ''*'', currentOffset + 1, rs))"

text \<open>
  One pass through the body when a marker is left. The source has no \<open>else\<close> after its
  \<open>else if italicStart != -1\<close>: there the state would stay as it is.
\<close>

definition inlineStep :: "string \<Rightarrow> string \<Rightarrow> int \<Rightarrow> formatRange list \<Rightarrow> scan" where
  "inlineStep tempText cleanText currentOffset rs =
     (let boldStart = Index tempText ''**'';
          italicStart = Index tempText ''*''
      in
      if boldStart \<noteq> - 1 \<and> (italicStart = - 1 \<or> boldStart \<le> italicStart)
      then boldBranch tempText cleanText currentOffset rs boldStart
      else if italicStart \<noteq> - 1
      then italicBranch tempText cleanText currentOffset rs italicStart
      else (tempText, cleanText, currentOffset, rs))"

lemma boldBranch_shorter:
  assumes "Index tempText ''**'' \<noteq> - 1"
  shows "length (fst (boldBranch tempText cleanText currentOffset rs (Index tempText ''**''))) < length tempText"
proof -
  define b where "b = Index tempText ''**''"
  have b: "0 \<le> b" "nat b + 2 \<le> length tempText"
    using Index_range [of tempText "''**''"] assms by (auto simp: b_def)
  then have "length (drop (nat b + 2) tempText) < length tempText" by simp
  moreover have "length (drop n (drop (nat b + 2) tempText)) \<le> length (drop (nat b + 2) tempText)" for n
    by simp
  ultimately show ?thesis
    unfolding boldBranch_def b_def [symmetric] Let_def
    by (auto simp del: length_drop drop_drop intro: le_less_trans)
qed

lemma italicBranch_shorter:
  assumes "Index tempText ''*'' \<noteq> - 1"
  shows "length (fst (italicBranch tempText cleanText currentOffset rs (Index tempText ''*''))) < length tempText"
proof -
  define b where "b = Index tempText ''*''"
  have b: "0 \<le> b" "nat b + 1 \<le> length tempText"
    using Index_range [of tempText "''*''"] assms by (auto simp: b_def)
  then have "length (drop (nat b + 1) tempText) < length tempText" by simp
  moreover have "length (drop n (drop (nat b + 1) tempText)) \<le> length (drop (nat b + 1) tempText)" for n
    by simp
  ultimately show ?thesis
    unfolding italicBranch_def b_def [symmetric] Let_def
    by (auto simp del: length_drop drop_drop intro: le_less_trans)
qed

lemma inlineStep_shorter:
  assumes "\<not> (Index tempText ''**'' = - 1 \<and> Index tempText ''*'' = - 1)"
  shows "length (fst (inlineStep tempText cleanText currentOffset rs)) < length tempText"
  using assms boldBranch_shorter italicBranch_shorter
  unfolding inlineStep_def Let_def by auto

function inlineLoop :: "string \<Rightarrow> string \<Rightarrow> int \<Rightarrow> formatRange list \<Rightarrow> string \<times> formatRange list" where
  "inlineLoop tempText cleanText currentOffset rs =
     (if Index tempText ''**'' = - 1 \<and> Index tempText ''*'' = - 1 then (cleanText @ tempText, rs)
      else (case inlineStep tempText cleanText currentOffset rs of
              (tempText', cleanText', currentOffset', rs') \<Rightarrow>
                inlineLoop tempText' cleanText' currentOffset' rs'))"
  by pat_completeness auto
termination
  apply (relation "measure (\<lambda>(tempText, cleanText, currentOffset, rs). length tempText)")
   apply simp
  subgoal for tempText cleanText currentOffset rs x y z u
    using inlineStep_shorter [of tempText cleanText currentOffset rs]
    by (cases "inlineStep tempText cleanText currentOffset rs") auto
  done

text \<open>The heading \<open>switch\<close>: the style is chosen on \<open>trimmed\<close>, the prefix is cut off \<open>line\<close>.\<close>

definition headingOf :: "string \<Rightarrow> string \<Rightarrow> string \<times> string" where
  "headingOf line trimmed =
     (if HasPrefix trimmed ''### '' then (''HEADING_3'', TrimPrefix line ''### '')
      else if HasPrefix trimmed ''## '' then (''HEADING_2'', TrimPrefix line ''## '')
      else if HasPrefix trimmed ''# '' then (''HEADING_1'', TrimPrefix line ''# '')
      else (''NORMAL_TEXT'', line))"

text \<open>The list item check, made for \<open>NORMAL_TEXT\<close> only: \<open>(isBullet, isNumbered, text)\<close>.\<close>

definition listItem :: "string \<Rightarrow> string \<Rightarrow> bool \<times> bool \<times> string" where
  "listItem sty text =
     (if sty = ''NORMAL_TEXT'' then
        (if HasPrefix text ''- '' \<or> HasPrefix text ''* '' then (True, False, drop 2 text)
         else if length text \<ge> 3 \<and> byte (text ! 0) \<ge> byte (CHR ''0'') \<and> byte (text ! 0) \<le> byte (CHR ''9'')
                 \<and> text ! 1 = CHR ''.'' \<and> text ! 2 = CHR '' '' then (False, True, drop 3 text)
         else (False, False, text))
      else (False, False, text))"

definition newline :: string where
  "newline = [CHR 0x0A]"

definition blankSegment :: segment where
  "blankSegment = \<lparr>seg_text = newline, style = ''NORMAL_TEXT'', isBullet = False, isNumbered = False, ranges = []\<rparr>"

text \<open>The body of the loop over the lines: one segment per line.\<close>

definition parseLine :: "string \<Rightarrow> segment" where
  "parseLine l =
     (let line = TrimRight l (CHR 0x0D);
          trimmed = TrimSpace line
      in
      if trimmed = [] then blankSegment
      else if trimmed = ''---'' then blankSegment
      else
        (case headingOf line trimmed of (sty, text) \<Rightarrow>
         case listItem sty text of (bullet, numbered, text) \<Rightarrow>
         case inlineLoop text [] 0 [] of (cleanText, rs) \<Rightarrow>
           \<lparr>seg_text = cleanText @ newline, style = sty, isBullet = bullet,
            isNumbered = numbered, ranges = rs\<rparr>))"

definition parseMarkdown :: "string \<Rightarrow> segment list" where
  "parseMarkdown markdown = map parseLine (Split markdown)"

section \<open>\<open>writeMarkdownToDoc\<close>: from segments to requests\<close>

datatype request =
    InsertText int string
      \<comment> \<open>\<open>Location.Index\<close>, \<open>Text\<close>\<close>
  | DeleteContentRange int int
      \<comment> \<open>\<open>Range.StartIndex\<close>, \<open>Range.EndIndex\<close>\<close>
  | UpdateParagraphStyle int int string
      \<comment> \<open>range, \<open>NamedStyleType\<close>\<close>
  | CreateParagraphBullets int int string
      \<comment> \<open>range, \<open>BulletPreset\<close>\<close>
  | UpdateTextStyle int int bool bool string
      \<comment> \<open>range, \<open>TextStyle.Bold\<close>, \<open>TextStyle.Italic\<close>, \<open>Fields\<close>\<close>

fun Join :: "string list \<Rightarrow> string \<Rightarrow> string" where
  "Join [] sep = []"
| "Join [x] sep = x"
| "Join (x # y # ys) sep = x @ sep @ Join (y # ys) sep"

text \<open>
  The indexes are \<open>int64\<close>: a sum that leaves the range wraps around. \<open>wrap64\<close> takes the
  exact sum to the value that the machine addition gives.
\<close>

definition wrap64 :: "int \<Rightarrow> int" where
  "wrap64 x = (x + 9223372036854775808) mod 18446744073709551616 - 9223372036854775808"

definition rangeRequest :: "int \<Rightarrow> formatRange \<Rightarrow> request" where
  "rangeRequest paraStartIdx r =
     (let fields = (if bold r then [''bold''] else []);
          fields = (if italic r then fields @ [''italic''] else fields)
      in UpdateTextStyle (wrap64 (paraStartIdx + rstart r)) (wrap64 (paraStartIdx + rend r)) (bold r) (italic r)
           (Join fields '',''))"

definition segmentRequests :: "int \<Rightarrow> int \<Rightarrow> segment \<Rightarrow> request list" where
  "segmentRequests paraStartIdx paraEndIdx seg =
     (if style seg \<noteq> [] \<and> style seg \<noteq> ''NORMAL_TEXT''
      then [UpdateParagraphStyle paraStartIdx paraEndIdx (style seg)] else [])
     @ (if isBullet seg then [CreateParagraphBullets paraStartIdx paraEndIdx ''BULLET_DISC_CIRCLE_SQUARE'']
        else if isNumbered seg then [CreateParagraphBullets paraStartIdx paraEndIdx ''NUMBERED_DECIMAL_NESTED'']
        else [])
     @ map (rangeRequest paraStartIdx) (ranges seg)"

text \<open>
  The loop that assigns the ranges: for each segment, in order, its
  \<open>(paraStartIdx, paraEndIdx)\<close> and the requests appended for it. \<open>len(seg.text)\<close> is the
  number of bytes of the text.
\<close>

fun styleLoop :: "int \<Rightarrow> segment list \<Rightarrow> ((int \<times> int) \<times> request list) list" where
  "styleLoop idx [] = []"
| "styleLoop idx (seg # segs) =
     (let segLen = int (length (seg_text seg));
          paraStartIdx = idx;
          paraEndIdx = wrap64 (idx + segLen)
      in ((paraStartIdx, paraEndIdx), segmentRequests paraStartIdx paraEndIdx seg)
           # styleLoop paraEndIdx segs)"

definition paragraphRanges :: "int \<Rightarrow> segment list \<Rightarrow> (int \<times> int) list" where
  "paragraphRanges startIdx segments = map fst (styleLoop startIdx segments)"

definition styleRequests :: "int \<Rightarrow> segment list \<Rightarrow> request list" where
  "styleRequests startIdx segments = concat (map snd (styleLoop startIdx segments))"


section \<open>The Docs service and the commands\<close>

text \<open>
  Errors as values. \<open>Wrapped msg e\<close> is \<open>fmt.Errorf("msg: %w", e)\<close>, \<open>Message\<close> an error made
  from a text alone, \<open>ApiError code\<close> a \<open>googleapi.Error\<close> with its HTTP status.
\<close>

datatype error =
    ApiError int
  | Message string
  | Usage string
  | Wrapped string error

fun isDocsNotFound :: "error \<Rightarrow> bool" where
  "isDocsNotFound (ApiError code) = (code = 404)"
| "isDocsNotFound (Wrapped msg e) = isDocsNotFound e"
| "isDocsNotFound e = False"

record element =
  EndIndex :: int

text \<open>A fetched document: \<open>Body\<close> is \<open>None\<close> for a nil body, else \<open>Body.Content\<close>.\<close>

record document =
  Body :: "element list option"

text \<open>
  The service that \<open>newDocsService\<close> returns, over a state \<open>'st\<close> of the remote documents:
  \<open>Documents.Get(id).Do()\<close> and \<open>Documents.BatchUpdate(id, req).Do()\<close>. A call of
  \<open>BatchUpdate\<close> returns its error, if any, and the state it leaves.
\<close>

record 'st service =
  Get :: "'st \<Rightarrow> string \<Rightarrow> error + document"
  BatchUpdate :: "'st \<Rightarrow> string \<Rightarrow> request list \<Rightarrow> error option \<times> 'st"

definition batchSize :: nat where
  "batchSize = 50"

text \<open>The loop \<open>for i := 0; i < len(styleRequests); i += batchSize\<close>.\<close>

function batchLoop :: "'st service \<Rightarrow> string \<Rightarrow> request list \<Rightarrow> nat \<Rightarrow> 'st \<Rightarrow> error option \<times> 'st" where
  "batchLoop svc docID reqs i st =
     (if i < length reqs then
        (let end = i + batchSize;
             end = (if end > length reqs then length reqs else end)
         in case BatchUpdate svc st docID (take (end - i) (drop i reqs)) of
              (Some err, st') \<Rightarrow> (Some (Wrapped ''apply styles batch'' err), st')
            | (None, st') \<Rightarrow> batchLoop svc docID reqs (i + batchSize) st')
      else (None, st))"
  by pat_completeness auto
termination
  by (relation "measure (\<lambda>(svc, docID, reqs, i, st). length reqs - i)") (auto simp: batchSize_def)

definition writeMarkdownToDoc :: "'st service \<Rightarrow> string \<Rightarrow> string \<Rightarrow> int \<Rightarrow> 'st \<Rightarrow> error option \<times> 'st" where
  "writeMarkdownToDoc svc docID markdown startIdx st =
     (let segments = parseMarkdown markdown;
          fullText = concat (map seg_text segments)
      in case BatchUpdate svc st docID [InsertText startIdx fullText] of
           (Some err, st') \<Rightarrow> (Some (Wrapped ''insert text'' err), st')
         | (None, st') \<Rightarrow>
             (let reqs = styleRequests startIdx segments in
              if length reqs > 0 then batchLoop svc docID reqs 0 st' else (None, st')))"

text \<open>The end index that \<open>clearDocsContent\<close> finds: the largest \<open>EndIndex\<close>, from 0.\<close>

definition contentEndIndex :: "element list \<Rightarrow> int" where
  "contentEndIndex content = foldl (\<lambda>endIndex el. if EndIndex el > endIndex then EndIndex el else endIndex) 0 content"

definition clearDocsContent :: "'st service \<Rightarrow> string \<Rightarrow> 'st \<Rightarrow> error option \<times> 'st" where
  "clearDocsContent svc docID st =
     (case Get svc st docID of
        Inl err \<Rightarrow> (Some err, st)
      | Inr doc \<Rightarrow>
          (case Body doc of
             None \<Rightarrow> (None, st)
           | Some content \<Rightarrow>
               if length content = 0 then (None, st)
               else
                 (let endIndex = contentEndIndex content in
                  if endIndex \<le> 2 then (None, st)
                  else BatchUpdate svc st docID [DeleteContentRange 1 (endIndex - 1)])))"

text \<open>
  What a command finds around it: the account of the flags, the service constructor and
  the input read from the file or from standard input. The line that a command prints
  at its end is left out.
\<close>

record 'st env =
  requireAccount :: "error + string"
  newDocsService :: "string \<Rightarrow> error + 'st service"
  readInput :: "string \<Rightarrow> error + string"

definition DocsWriteCmd_Run :: "'st env \<Rightarrow> string \<Rightarrow> string \<Rightarrow> 'st \<Rightarrow> error option \<times> 'st" where
  "DocsWriteCmd_Run env DocID File st =
     (case requireAccount env of
        Inl err \<Rightarrow> (Some err, st)
      | Inr account \<Rightarrow>
          (let id = TrimSpace DocID in
           if id = [] then (Some (Usage ''empty docId''), st)
           else
             (case newDocsService env account of
                Inl err \<Rightarrow> (Some err, st)
              | Inr svc \<Rightarrow>
                  (case readInput env File of
                     Inl err \<Rightarrow> (Some err, st)
                   | Inr input \<Rightarrow>
                       (case clearDocsContent svc id st of
                          (Some err, st') \<Rightarrow> (Some (Wrapped ''clear doc content'' err), st')
                        | (None, st') \<Rightarrow> writeMarkdownToDoc svc id input 1 st')))))"

text \<open>The insertion index of \<open>append\<close>.\<close>

definition appendIndex :: "document \<Rightarrow> int" where
  "appendIndex doc =
     (case Body doc of
        None \<Rightarrow> 1
      | Some content \<Rightarrow> if length content > 0 then EndIndex (content ! (length content - 1)) else 1)"

definition DocsAppendCmd_Run :: "'st env \<Rightarrow> string \<Rightarrow> string \<Rightarrow> 'st \<Rightarrow> error option \<times> 'st" where
  "DocsAppendCmd_Run env DocID File st =
     (case requireAccount env of
        Inl err \<Rightarrow> (Some err, st)
      | Inr account \<Rightarrow>
          (let id = TrimSpace DocID in
           if id = [] then (Some (Usage ''empty docId''), st)
           else
             (case newDocsService env account of
                Inl err \<Rightarrow> (Some err, st)
              | Inr svc \<Rightarrow>
                  (case readInput env File of
                     Inl err \<Rightarrow> (Some err, st)
                   | Inr input \<Rightarrow>
                       (case Get svc st id of
                          Inl err \<Rightarrow>
                            if isDocsNotFound err
                            then (Some (Message (''doc not found or not a Google Doc (id='' @ id @ '')'')), st)
                            else (Some err, st)
                        | Inr doc \<Rightarrow> writeMarkdownToDoc svc id input (appendIndex doc) st)))))"

text \<open>
  A service that also keeps the list of the \<open>BatchUpdate\<close> calls made, in order: what
  reaches the remote side.
\<close>

type_synonym calls = "(string \<times> request list) list"

definition logged :: "'st service \<Rightarrow> ('st \<times> calls) service" where
  "logged svc =
     \<lparr>Get = (\<lambda>(st, cs) docID. Get svc st docID),
      BatchUpdate = (\<lambda>(st, cs) docID reqs.
        case BatchUpdate svc st docID reqs of (err, st') \<Rightarrow> (err, (st', cs @ [(docID, reqs)])))\<rparr>"


text \<open>
  Submitting batches one after the other, in list order, up to the first failure: the
  error of the failing call, if any, and the state the calls leave.
\<close>

fun sends :: "'st service \<Rightarrow> string \<Rightarrow> request list list \<Rightarrow> 'st \<Rightarrow> error option \<times> 'st" where
  "sends svc docID [] st = (None, st)"
| "sends svc docID (b # bs) st =
     (case BatchUpdate svc st docID b of
        (Some e, st') \<Rightarrow> (Some e, st')
      | (None, st') \<Rightarrow> sends svc docID bs st')"

text \<open>The batch that the loop cuts at index \<open>i\<close>: \<open>styleRequests[i:end]\<close>.\<close>

definition batchAt :: "request list \<Rightarrow> nat \<Rightarrow> request list" where
  "batchAt reqs i = take ((if i + batchSize > length reqs then length reqs else i + batchSize) - i) (drop i reqs)"


text \<open>
  Two collaborators for concrete runs: a service that returns one fixed document, counts
  its \<open>BatchUpdate\<close> calls in its state and fails the call numbered \<open>k\<close> (from 0); and
  surroundings in which the account, the service and the input are at hand.
\<close>

definition countingService :: "document \<Rightarrow> nat \<Rightarrow> nat service" where
  "countingService doc k =
     \<lparr>Get = (\<lambda>n docID. Inr doc),
      BatchUpdate = (\<lambda>n docID reqs. (if n = k then Some (ApiError 500) else None, Suc n))\<rparr>"

definition fixedEnv :: "'st service \<Rightarrow> string \<Rightarrow> 'st env" where
  "fixedEnv svc input =
     \<lparr>requireAccount = Inr ''account'', newDocsService = (\<lambda>account. Inr svc),
      readInput = (\<lambda>file. Inr input)\<rparr>"

declare batchLoop.simps [simp del]
declare inlineLoop.simps [simp del]

section \<open>The ranges of the paragraphs\<close>

text \<open>
  What the loop over the segments does: the first range starts at the given index, each
  range starts where the one before ends, and a range ends at its start plus the number
  of bytes of its text, as \<open>int64\<close> addition gives it.
\<close>

lemma paragraphRanges_Nil: "paragraphRanges idx [] = []"
  by (simp add: paragraphRanges_def)

lemma paragraphRanges_Cons:
  "paragraphRanges idx (seg # segs) =
     (idx, wrap64 (idx + int (length (seg_text seg))))
       # paragraphRanges (wrap64 (idx + int (length (seg_text seg)))) segs"
  by (simp add: paragraphRanges_def Let_def)

lemma paragraphRanges_length: "length (paragraphRanges idx segs) = length segs"
  by (induction segs arbitrary: idx) (simp_all add: paragraphRanges_Nil paragraphRanges_Cons)

lemma paragraphRanges_bytes:
  "k < length segs \<Longrightarrow>
     snd (paragraphRanges idx segs ! k)
       = wrap64 (fst (paragraphRanges idx segs ! k) + int (length (seg_text (segs ! k))))"
proof (induction segs arbitrary: idx k)
  case Nil
  then show ?case by simp
next
  case (Cons seg segs)
  then show ?case by (cases k) (simp_all add: paragraphRanges_Cons)
qed

lemma paragraphRanges_chain:
  "Suc k < length segs \<Longrightarrow>
     fst (paragraphRanges idx segs ! Suc k) = snd (paragraphRanges idx segs ! k)"
proof (induction segs arbitrary: idx k)
  case Nil
  then show ?case by simp
next
  case (Cons seg segs)
  show ?case
  proof (cases k)
    case 0
    with Cons.prems show ?thesis
      by (cases segs) (simp_all add: paragraphRanges_Cons)
  next
    case (Suc j)
    with Cons show ?thesis by (simp add: paragraphRanges_Cons)
  qed
qed

text \<open>
  Claim C1: every segment's range satisfies \<open>end = start + utf16Length(text)\<close>. The code
  takes \<open>len(seg.text)\<close>, the number of bytes. For the one-line input \<open># \<close> followed by
  the two bytes of U+00E9, written at index 1, the text of the segment has 2 UTF-16 code
  units and the range assigned, which the heading request carries, is \<open>(1, 4)\<close>.
\<close>

theorem C1_range_counts_bytes:
  "map (\<lambda>seg. utf16CodeUnitCount (seg_text seg)) (parseMarkdown (''# '' @ [CHR 0xC3, CHR 0xA9])) = [2]
   \<and> paragraphRanges 1 (parseMarkdown (''# '' @ [CHR 0xC3, CHR 0xA9])) = [(1, 4)]
   \<and> styleRequests 1 (parseMarkdown (''# '' @ [CHR 0xC3, CHR 0xA9])) = [UpdateParagraphStyle 1 4 ''HEADING_1'']"
  by code_simp


section \<open>The batches of style requests\<close>

lemma batchAt_props:
  assumes "i < length reqs"
  shows "batchAt reqs i \<noteq> []" "length (batchAt reqs i) \<le> batchSize"
    "batchAt reqs i @ drop (i + batchSize) reqs = drop i reqs"
proof -
  show "batchAt reqs i \<noteq> []" using assms by (auto simp: batchAt_def batchSize_def)
  show "length (batchAt reqs i) \<le> batchSize" by (auto simp: batchAt_def)
  show "batchAt reqs i @ drop (i + batchSize) reqs = drop i reqs"
  proof (cases "i + batchSize > length reqs")
    case True
    then show ?thesis by (simp add: batchAt_def)
  next
    case False
    then have "batchAt reqs i = take batchSize (drop i reqs)" by (simp add: batchAt_def)
    moreover have "drop (i + batchSize) reqs = drop batchSize (drop i reqs)" by (simp add: add.commute)
    ultimately show ?thesis by (simp del: drop_drop)
  qed
qed

lemma batchLoop_unfold:
  "i < length reqs \<Longrightarrow> batchLoop svc docID reqs i st =
     (case BatchUpdate svc st docID (batchAt reqs i) of
        (Some err, st') \<Rightarrow> (Some (Wrapped ''apply styles batch'' err), st')
      | (None, st') \<Rightarrow> batchLoop svc docID reqs (i + batchSize) st')"
  by (subst batchLoop.simps) (simp add: batchAt_def Let_def)

lemma batchLoop_done: "\<not> i < length reqs \<Longrightarrow> batchLoop svc docID reqs i st = (None, st)"
  by (subst batchLoop.simps) simp

lemma logged_BatchUpdate:
  "BatchUpdate (logged svc) (st, cs) docID b =
     (fst (BatchUpdate svc st docID b), snd (BatchUpdate svc st docID b), cs @ [(docID, b)])"
  by (simp add: logged_def split: prod.splits)

lemma batchLoop_logged:
  "batchLoop (logged svc) docID reqs i (st, cs) = (err, st', cs') \<Longrightarrow>
   \<exists>bs. cs' = cs @ map (Pair docID) bs
      \<and> (\<forall>b\<in>set bs. b \<noteq> [] \<and> length b \<le> batchSize)
      \<and> concat bs = take (length (concat bs)) (drop i reqs)
      \<and> (err = None \<longrightarrow> concat bs = drop i reqs \<and> sends svc docID bs st = (None, st'))
      \<and> (\<forall>e. err = Some e \<longrightarrow> bs \<noteq> [] \<and>
            (\<exists>e0 s1. e = Wrapped ''apply styles batch'' e0
               \<and> sends svc docID (butlast bs) st = (None, s1)
               \<and> BatchUpdate svc s1 docID (last bs) = (Some e0, st')))"
proof (induction "length reqs - i" arbitrary: i st cs rule: less_induct)
  case less
  show ?case
  proof (cases "i < length reqs")
    case False
    with less.prems have "err = None" "st' = st" "cs' = cs" by (simp_all add: batchLoop_done)
    then show ?thesis using False by (intro exI [of _ "[]"]) simp
  next
    case True
    define b where "b = batchAt reqs i"
    obtain e s1 where bu: "BatchUpdate svc st docID b = (e, s1)" by (cases "BatchUpdate svc st docID b")
    have lg: "BatchUpdate (logged svc) (st, cs) docID b = (e, (s1, cs @ [(docID, b)]))"
      using bu by (simp add: logged_BatchUpdate)
    note bp = batchAt_props [OF True, folded b_def]
    show ?thesis
    proof (cases e)
      case (Some e0)
      with less.prems True lg have r: "err = Some (Wrapped ''apply styles batch'' e0)" "st' = s1" "cs' = cs @ [(docID, b)]"
        by (simp_all add: batchLoop_unfold b_def [symmetric])
      have "b = take (length b) (drop i reqs)" by (simp add: b_def batchAt_def)
      then show ?thesis using r bp bu Some
        by (intro exI [of _ "[b]"]) simp
    next
      case None
      with less.prems True lg
      have rec: "batchLoop (logged svc) docID reqs (i + batchSize) (s1, cs @ [(docID, b)]) = (err, st', cs')"
        by (simp add: batchLoop_unfold b_def [symmetric])
      have "length reqs - (i + batchSize) < length reqs - i" using True by (simp add: batchSize_def)
      from less.hyps [OF this rec] obtain bs where
        bs: "cs' = (cs @ [(docID, b)]) @ map (Pair docID) bs"
          "\<forall>b\<in>set bs. b \<noteq> [] \<and> length b \<le> batchSize"
          "concat bs = take (length (concat bs)) (drop (i + batchSize) reqs)"
          "err = None \<longrightarrow> concat bs = drop (i + batchSize) reqs \<and> sends svc docID bs s1 = (None, st')"
          "\<forall>e. err = Some e \<longrightarrow> bs \<noteq> [] \<and>
            (\<exists>e0 s2. e = Wrapped ''apply styles batch'' e0
               \<and> sends svc docID (butlast bs) s1 = (None, s2)
               \<and> BatchUpdate svc s2 docID (last bs) = (Some e0, st'))"
        by blast
      have c: "concat (b # bs) = take (length (concat (b # bs))) (drop i reqs)"
      proof -
        have "take (length b + length (concat bs)) (b @ drop (i + batchSize) reqs) = b @ take (length (concat bs)) (drop (i + batchSize) reqs)"
          by simp
        then show ?thesis using bs(3) bp(3) by simp
      qed
      show ?thesis
      proof (intro exI [of _ "b # bs"] conjI)
        show "cs' = cs @ map (Pair docID) (b # bs)" using bs(1) by simp
        show "\<forall>b\<in>set (b # bs). b \<noteq> [] \<and> length b \<le> batchSize" using bs(2) bp by simp
        show "concat (b # bs) = take (length (concat (b # bs))) (drop i reqs)" by (rule c)
        show "err = None \<longrightarrow> concat (b # bs) = drop i reqs \<and> sends svc docID (b # bs) st = (None, st')"
          using bs(4) bp(3) bu None by simp
        show "\<forall>e. err = Some e \<longrightarrow> b # bs \<noteq> [] \<and>
            (\<exists>e0 s1. e = Wrapped ''apply styles batch'' e0
               \<and> sends svc docID (butlast (b # bs)) st = (None, s1)
               \<and> BatchUpdate svc s1 docID (last (b # bs)) = (Some e0, st'))"
          using bs(5) bu None by auto
      qed
    qed
  qed
qed

lemma writeMarkdownToDoc_insert_fails:
  assumes "BatchUpdate svc st docID [InsertText startIdx (concat (map seg_text (parseMarkdown markdown)))] = (Some e, s0)"
  shows "writeMarkdownToDoc (logged svc) docID markdown startIdx (st, cs) =
           (Some (Wrapped ''insert text'' e), s0,
            cs @ [(docID, [InsertText startIdx (concat (map seg_text (parseMarkdown markdown)))])])"
  using assms by (simp add: writeMarkdownToDoc_def Let_def logged_BatchUpdate)

lemma writeMarkdownToDoc_insert_ok:
  assumes "BatchUpdate svc st docID [InsertText startIdx (concat (map seg_text (parseMarkdown markdown)))] = (None, s0)"
  shows "writeMarkdownToDoc (logged svc) docID markdown startIdx (st, cs) =
           batchLoop (logged svc) docID (styleRequests startIdx (parseMarkdown markdown)) 0
             (s0, cs @ [(docID, [InsertText startIdx (concat (map seg_text (parseMarkdown markdown)))])])"
  using assms by (simp add: writeMarkdownToDoc_def Let_def logged_BatchUpdate batchLoop_done)

lemma writeMarkdownToDoc_first_call:
  assumes "writeMarkdownToDoc (logged svc) docID markdown startIdx (st, cs) = (err, st', cs')"
  shows "\<exists>rest. cs' = cs @ (docID, [InsertText startIdx (concat (map seg_text (parseMarkdown markdown)))]) # rest"
proof -
  let ?ins = "[InsertText startIdx (concat (map seg_text (parseMarkdown markdown)))]"
  obtain e s0 where bu: "BatchUpdate svc st docID ?ins = (e, s0)" by (cases "BatchUpdate svc st docID ?ins")
  show ?thesis
  proof (cases e)
    case (Some e0)
    with bu assms show ?thesis by (auto simp add: writeMarkdownToDoc_insert_fails)
  next
    case None
    with bu assms have "batchLoop (logged svc) docID (styleRequests startIdx (parseMarkdown markdown)) 0
             (s0, cs @ [(docID, ?ins)]) = (err, st', cs')"
      by (simp add: writeMarkdownToDoc_insert_ok)
    from batchLoop_logged [OF this] show ?thesis by auto
  qed
qed

text \<open>
  Claim C2: the style requests are submitted in their order, in one or more
  \<open>BatchUpdate\<close> calls of at most 50 requests each; when a call fails no further batch
  is submitted, what earlier batches did stays, and the error is returned. Here the
  calls that reach the service after a successful insertion are the batches \<open>bs\<close>:
  none is empty or longer than 50, together they are a leading part of the style
  requests, all of them when no error is returned; on an error the last batch sent is the
  one that failed, every batch before it was accepted, and the state returned is the one
  these calls left.
\<close>

theorem C2_batches:
  assumes "BatchUpdate svc st docID [InsertText startIdx (concat (map seg_text (parseMarkdown markdown)))] = (None, s0)"
    and "writeMarkdownToDoc (logged svc) docID markdown startIdx (st, []) = (err, st', cs)"
  shows "\<exists>bs. cs = (docID, [InsertText startIdx (concat (map seg_text (parseMarkdown markdown)))]) # map (Pair docID) bs
      \<and> (\<forall>b\<in>set bs. b \<noteq> [] \<and> length b \<le> 50)
      \<and> concat bs = take (length (concat bs)) (styleRequests startIdx (parseMarkdown markdown))
      \<and> (err = None \<longrightarrow> concat bs = styleRequests startIdx (parseMarkdown markdown)
            \<and> sends svc docID bs s0 = (None, st'))
      \<and> (\<forall>e. err = Some e \<longrightarrow> bs \<noteq> [] \<and>
            (\<exists>e0 s1. e = Wrapped ''apply styles batch'' e0
               \<and> sends svc docID (butlast bs) s0 = (None, s1)
               \<and> BatchUpdate svc s1 docID (last bs) = (Some e0, st')))"
proof -
  let ?ins = "[InsertText startIdx (concat (map seg_text (parseMarkdown markdown)))]"
  from assms have "batchLoop (logged svc) docID (styleRequests startIdx (parseMarkdown markdown)) 0
             (s0, [] @ [(docID, ?ins)]) = (err, st', cs)"
    by (simp add: writeMarkdownToDoc_insert_ok)
  from batchLoop_logged [OF this] show ?thesis
    by (simp add: batchSize_def)
qed

theorem C2_batches_witness:
  "BatchUpdate (countingService \<lparr>Body = None\<rparr> 1) 0 ''doc''
      [InsertText 1 (concat (map seg_text (parseMarkdown ''# a'')))] = (None, 1)
   \<and> writeMarkdownToDoc (logged (countingService \<lparr>Body = None\<rparr> 1)) ''doc'' ''# a'' 1 (0, []) =
       (Some (Wrapped ''apply styles batch'' (ApiError 500)), 2,
        [(''doc'', [InsertText 1 (''a'' @ [CHR 0x0A])]), (''doc'', [UpdateParagraphStyle 1 3 ''HEADING_1''])])
   \<and> (\<exists>bs. [(''doc'', [InsertText 1 (''a'' @ [CHR 0x0A])]), (''doc'', [UpdateParagraphStyle 1 3 ''HEADING_1''])]
          = (''doc'', [InsertText 1 (concat (map seg_text (parseMarkdown ''# a'')))]) # map (Pair ''doc'') bs
      \<and> (\<forall>b\<in>set bs. b \<noteq> [] \<and> length b \<le> 50)
      \<and> concat bs = take (length (concat bs)) (styleRequests 1 (parseMarkdown ''# a''))
      \<and> (Some (Wrapped ''apply styles batch'' (ApiError 500)) = None \<longrightarrow>
            concat bs = styleRequests 1 (parseMarkdown ''# a'')
            \<and> sends (countingService \<lparr>Body = None\<rparr> 1) ''doc'' bs 1 = (None, 2))
      \<and> (\<forall>e. Some (Wrapped ''apply styles batch'' (ApiError 500)) = Some e \<longrightarrow> bs \<noteq> [] \<and>
            (\<exists>e0 s1. e = Wrapped ''apply styles batch'' e0
               \<and> sends (countingService \<lparr>Body = None\<rparr> 1) ''doc'' (butlast bs) 1 = (None, s1)
               \<and> BatchUpdate (countingService \<lparr>Body = None\<rparr> 1) s1 ''doc'' (last bs) = (Some e0, 2))))"
proof -
  have a: "BatchUpdate (countingService \<lparr>Body = None\<rparr> 1) 0 ''doc''
      [InsertText 1 (concat (map seg_text (parseMarkdown ''# a'')))] = (None, 1)"
    by (simp add: countingService_def)
  have b: "writeMarkdownToDoc (logged (countingService \<lparr>Body = None\<rparr> 1)) ''doc'' ''# a'' 1 (0, []) =
       (Some (Wrapped ''apply styles batch'' (ApiError 500)), 2,
        [(''doc'', [InsertText 1 (''a'' @ [CHR 0x0A])]), (''doc'', [UpdateParagraphStyle 1 3 ''HEADING_1''])])"
    by code_simp
  show ?thesis by (intro conjI a b C2_batches [OF a b])
qed

section \<open>\<open>write\<close> and \<open>append\<close>\<close>

lemma clearDocsContent_logged_delete:
  assumes "Get svc st docID = Inr doc" "Body doc = Some content" "content \<noteq> []" "2 < contentEndIndex content"
  shows "clearDocsContent (logged svc) docID (st, cs) =
           (fst (BatchUpdate svc st docID [DeleteContentRange 1 (contentEndIndex content - 1)]),
            snd (BatchUpdate svc st docID [DeleteContentRange 1 (contentEndIndex content - 1)]),
            cs @ [(docID, [DeleteContentRange 1 (contentEndIndex content - 1)])])"
  using assms by (simp add: clearDocsContent_def logged_def Let_def split: prod.splits)

lemma clearDocsContent_logged_empty:
  assumes "Get svc st docID = Inr doc"
    and "Body doc = None \<or> (\<exists>content. Body doc = Some content \<and> (content = [] \<or> contentEndIndex content \<le> 2))"
  shows "clearDocsContent (logged svc) docID (st, cs) = (None, st, cs)"
  using assms by (auto simp add: clearDocsContent_def Let_def logged_def)

lemma contentEndIndex_from:
  "foldl (\<lambda>endIndex el. if EndIndex el > endIndex then EndIndex el else endIndex) acc content
     = Max (insert acc (EndIndex ` set content))"
proof (induction content arbitrary: acc)
  case Nil
  then show ?case by simp
next
  case (Cons el content)
  have m: "Max (insert (max acc (EndIndex el)) (EndIndex ` set content))
      = Max (insert acc (insert (EndIndex el) (EndIndex ` set content)))"
  proof (cases "EndIndex ` set content = {}")
    case True
    then show ?thesis by simp
  next
    case False
    then show ?thesis by (simp add: max.assoc)
  qed
  have "(if EndIndex el > acc then EndIndex el else acc) = max acc (EndIndex el)" by (simp add: max_def)
  then show ?case using Cons [of "max acc (EndIndex el)"] m by simp
qed

text \<open>The end index that clearing works with is the largest \<open>EndIndex\<close> of the content.\<close>

lemma contentEndIndex_Max:
  "contentEndIndex content = Max (insert 0 (EndIndex ` set content))"
  by (simp add: contentEndIndex_def contentEndIndex_from)

text \<open>
  Claim C3: \<open>write\<close> on a document whose end offset \<open>endOfDoc\<close> is the largest \<open>EndIndex\<close>
  of its content first deletes exactly the range from 1 to \<open>endOfDoc - 1\<close> and then
  inserts the converted content at index 1; when the document is already empty
  (\<open>endOfDoc \<le> 2\<close>, or no content at all) clearing sends no request and is no error, and
  the insertion at index 1 is the first call.
\<close>

theorem C3_write_clears_then_inserts:
  assumes "requireAccount env = Inr account"
    and "TrimSpace DocID \<noteq> []"
    and "newDocsService env account = Inr (logged svc)"
    and "readInput env File = Inr input"
    and "Get svc st (TrimSpace DocID) = Inr doc"
    and "DocsWriteCmd_Run env DocID File (st, []) = (err, st', cs)"
  shows "(\<forall>content. Body doc = Some content \<and> content \<noteq> [] \<and> 2 < Max (insert 0 (EndIndex ` set content)) \<longrightarrow>
            (\<exists>rest. cs = (TrimSpace DocID, [DeleteContentRange 1 (Max (insert 0 (EndIndex ` set content)) - 1)]) # rest)
          \<and> (fst (BatchUpdate svc st (TrimSpace DocID) [DeleteContentRange 1 (Max (insert 0 (EndIndex ` set content)) - 1)]) = None \<longrightarrow>
               (\<exists>rest. cs = (TrimSpace DocID, [DeleteContentRange 1 (Max (insert 0 (EndIndex ` set content)) - 1)])
                    # (TrimSpace DocID, [InsertText 1 (concat (map seg_text (parseMarkdown input)))]) # rest)))
       \<and> (Body doc = None \<or> (\<exists>content. Body doc = Some content \<and> (content = [] \<or> Max (insert 0 (EndIndex ` set content)) \<le> 2)) \<longrightarrow>
            clearDocsContent (logged svc) (TrimSpace DocID) (st, []) = (None, st, [])
          \<and> (\<exists>rest. cs = (TrimSpace DocID, [InsertText 1 (concat (map seg_text (parseMarkdown input)))]) # rest))"
  unfolding contentEndIndex_Max [symmetric]
proof (intro conjI allI impI)
  let ?id = "TrimSpace DocID"
  let ?ins = "(?id, [InsertText 1 (concat (map seg_text (parseMarkdown input)))])"
  have run: "(case clearDocsContent (logged svc) ?id (st, []) of
               (Some e, s) \<Rightarrow> (Some (Wrapped ''clear doc content'' e), s)
             | (None, s) \<Rightarrow> writeMarkdownToDoc (logged svc) ?id input 1 s) = (err, st', cs)"
    using assms by (simp add: DocsWriteCmd_Run_def Let_def)
  {
    fix content
    assume c: "Body doc = Some content \<and> content \<noteq> [] \<and> 2 < contentEndIndex content"
    let ?del = "[DeleteContentRange 1 (contentEndIndex content - 1)]"
    obtain e s1 where bu: "BatchUpdate svc st ?id ?del = (e, s1)" by (cases "BatchUpdate svc st ?id ?del")
    have cl: "clearDocsContent (logged svc) ?id (st, []) = (e, s1, [(?id, ?del)])"
      using clearDocsContent_logged_delete [OF assms(5), of content "[]"] c bu by simp
    show "\<exists>rest. cs = (?id, ?del) # rest"
    proof (cases e)
      case (Some e0)
      with run cl show ?thesis by auto
    next
      case None
      with run cl have "writeMarkdownToDoc (logged svc) ?id input 1 (s1, [(?id, ?del)]) = (err, st', cs)" by simp
      from writeMarkdownToDoc_first_call [OF this] show ?thesis by auto
    qed
    assume ok: "fst (BatchUpdate svc st ?id ?del) = None"
    with bu have "e = None" by simp
    with run cl have "writeMarkdownToDoc (logged svc) ?id input 1 (s1, [(?id, ?del)]) = (err, st', cs)" by simp
    from writeMarkdownToDoc_first_call [OF this] show "\<exists>rest. cs = (?id, ?del) # ?ins # rest" by auto
  }
  assume e: "Body doc = None \<or> (\<exists>content. Body doc = Some content \<and> (content = [] \<or> contentEndIndex content \<le> 2))"
  show cl: "clearDocsContent (logged svc) ?id (st, []) = (None, st, [])"
    by (rule clearDocsContent_logged_empty [OF assms(5) e])
  with run have "writeMarkdownToDoc (logged svc) ?id input 1 (st, []) = (err, st', cs)" by simp
  from writeMarkdownToDoc_first_call [OF this] show "\<exists>rest. cs = ?ins # rest" by auto
qed

theorem C3_write_clears_then_inserts_witness:
  "(requireAccount (fixedEnv (logged (countingService \<lparr>Body = Some [\<lparr>EndIndex = 5\<rparr>, \<lparr>EndIndex = 12\<rparr>, \<lparr>EndIndex = 7\<rparr>]\<rparr> 9)) ''# a'') = Inr ''account'')
   \<and> (TrimSpace ''doc'' \<noteq> [])
   \<and> (newDocsService (fixedEnv (logged (countingService \<lparr>Body = Some [\<lparr>EndIndex = 5\<rparr>, \<lparr>EndIndex = 12\<rparr>, \<lparr>EndIndex = 7\<rparr>]\<rparr> 9)) ''# a'') ''account'' = Inr (logged (countingService \<lparr>Body = Some [\<lparr>EndIndex = 5\<rparr>, \<lparr>EndIndex = 12\<rparr>, \<lparr>EndIndex = 7\<rparr>]\<rparr> 9)))
   \<and> (readInput (fixedEnv (logged (countingService \<lparr>Body = Some [\<lparr>EndIndex = 5\<rparr>, \<lparr>EndIndex = 12\<rparr>, \<lparr>EndIndex = 7\<rparr>]\<rparr> 9)) ''# a'') [] = Inr ''# a'')
   \<and> (Get (countingService \<lparr>Body = Some [\<lparr>EndIndex = 5\<rparr>, \<lparr>EndIndex = 12\<rparr>, \<lparr>EndIndex = 7\<rparr>]\<rparr> 9) 0 (TrimSpace ''doc'') = Inr \<lparr>Body = Some [\<lparr>EndIndex = 5\<rparr>, \<lparr>EndIndex = 12\<rparr>, \<lparr>EndIndex = 7\<rparr>]\<rparr>)
   \<and> (DocsWriteCmd_Run (fixedEnv (logged (countingService \<lparr>Body = Some [\<lparr>EndIndex = 5\<rparr>, \<lparr>EndIndex = 12\<rparr>, \<lparr>EndIndex = 7\<rparr>]\<rparr> 9)) ''# a'') ''doc'' [] (0, []) = (None, 3, [(''doc'', [DeleteContentRange 1 11]), (''doc'', [InsertText 1 (''a'' @ [CHR 0x0A])]), (''doc'', [UpdateParagraphStyle 1 3 ''HEADING_1''])]))
   \<and> (Body \<lparr>Body = Some [\<lparr>EndIndex = 5\<rparr>, \<lparr>EndIndex = 12\<rparr>, \<lparr>EndIndex = 7\<rparr>]\<rparr> = Some [\<lparr>EndIndex = 5\<rparr>, \<lparr>EndIndex = 12\<rparr>, \<lparr>EndIndex = 7\<rparr>] \<and> [\<lparr>EndIndex = 5\<rparr>, \<lparr>EndIndex = 12\<rparr>, \<lparr>EndIndex = 7\<rparr>] \<noteq> [] \<and> 2 < Max (insert 0 (EndIndex ` set [\<lparr>EndIndex = 5\<rparr>, \<lparr>EndIndex = 12\<rparr>, \<lparr>EndIndex = 7\<rparr>])))
   \<and> (Max (insert 0 (EndIndex ` set [\<lparr>EndIndex = 5\<rparr>, \<lparr>EndIndex = 12\<rparr>, \<lparr>EndIndex = 7\<rparr>])) = 12)
   \<and> (fst (BatchUpdate (countingService \<lparr>Body = Some [\<lparr>EndIndex = 5\<rparr>, \<lparr>EndIndex = 12\<rparr>, \<lparr>EndIndex = 7\<rparr>]\<rparr> 9) 0 (TrimSpace ''doc'') [DeleteContentRange 1 (Max (insert 0 (EndIndex ` set [\<lparr>EndIndex = 5\<rparr>, \<lparr>EndIndex = 12\<rparr>, \<lparr>EndIndex = 7\<rparr>])) - 1)]) = None)
   \<and> (\<exists>rest. [(''doc'', [DeleteContentRange 1 11]), (''doc'', [InsertText 1 (''a'' @ [CHR 0x0A])]), (''doc'', [UpdateParagraphStyle 1 3 ''HEADING_1''])] = (TrimSpace ''doc'', [DeleteContentRange 1 (Max (insert 0 (EndIndex ` set [\<lparr>EndIndex = 5\<rparr>, \<lparr>EndIndex = 12\<rparr>, \<lparr>EndIndex = 7\<rparr>])) - 1)]) # (TrimSpace ''doc'', [InsertText 1 (concat (map seg_text (parseMarkdown ''# a'')))]) # rest)"
proof -
  have h1: "requireAccount (fixedEnv (logged (countingService \<lparr>Body = Some [\<lparr>EndIndex = 5\<rparr>, \<lparr>EndIndex = 12\<rparr>, \<lparr>EndIndex = 7\<rparr>]\<rparr> 9)) ''# a'') = Inr ''account''"
    by (simp add: fixedEnv_def)
  have h2: "TrimSpace ''doc'' \<noteq> []"
    by code_simp
  have h3: "newDocsService (fixedEnv (logged (countingService \<lparr>Body = Some [\<lparr>EndIndex = 5\<rparr>, \<lparr>EndIndex = 12\<rparr>, \<lparr>EndIndex = 7\<rparr>]\<rparr> 9)) ''# a'') ''account'' = Inr (logged (countingService \<lparr>Body = Some [\<lparr>EndIndex = 5\<rparr>, \<lparr>EndIndex = 12\<rparr>, \<lparr>EndIndex = 7\<rparr>]\<rparr> 9))"
    by (simp add: fixedEnv_def)
  have h4: "readInput (fixedEnv (logged (countingService \<lparr>Body = Some [\<lparr>EndIndex = 5\<rparr>, \<lparr>EndIndex = 12\<rparr>, \<lparr>EndIndex = 7\<rparr>]\<rparr> 9)) ''# a'') [] = Inr ''# a''"
    by (simp add: fixedEnv_def)
  have h5: "Get (countingService \<lparr>Body = Some [\<lparr>EndIndex = 5\<rparr>, \<lparr>EndIndex = 12\<rparr>, \<lparr>EndIndex = 7\<rparr>]\<rparr> 9) 0 (TrimSpace ''doc'') = Inr \<lparr>Body = Some [\<lparr>EndIndex = 5\<rparr>, \<lparr>EndIndex = 12\<rparr>, \<lparr>EndIndex = 7\<rparr>]\<rparr>"
    by (simp add: countingService_def)
  have h6: "DocsWriteCmd_Run (fixedEnv (logged (countingService \<lparr>Body = Some [\<lparr>EndIndex = 5\<rparr>, \<lparr>EndIndex = 12\<rparr>, \<lparr>EndIndex = 7\<rparr>]\<rparr> 9)) ''# a'') ''doc'' [] (0, []) = (None, 3, [(''doc'', [DeleteContentRange 1 11]), (''doc'', [InsertText 1 (''a'' @ [CHR 0x0A])]), (''doc'', [UpdateParagraphStyle 1 3 ''HEADING_1''])])"
    by code_simp
  have e1: "Body \<lparr>Body = Some [\<lparr>EndIndex = 5\<rparr>, \<lparr>EndIndex = 12\<rparr>, \<lparr>EndIndex = 7\<rparr>]\<rparr> = Some [\<lparr>EndIndex = 5\<rparr>, \<lparr>EndIndex = 12\<rparr>, \<lparr>EndIndex = 7\<rparr>] \<and> [\<lparr>EndIndex = 5\<rparr>, \<lparr>EndIndex = 12\<rparr>, \<lparr>EndIndex = 7\<rparr>] \<noteq> [] \<and> 2 < Max (insert 0 (EndIndex ` set [\<lparr>EndIndex = 5\<rparr>, \<lparr>EndIndex = 12\<rparr>, \<lparr>EndIndex = 7\<rparr>]))"
    by simp
  have e2: "Max (insert 0 (EndIndex ` set [\<lparr>EndIndex = 5\<rparr>, \<lparr>EndIndex = 12\<rparr>, \<lparr>EndIndex = 7\<rparr>])) = 12"
    by simp
  have e3: "fst (BatchUpdate (countingService \<lparr>Body = Some [\<lparr>EndIndex = 5\<rparr>, \<lparr>EndIndex = 12\<rparr>, \<lparr>EndIndex = 7\<rparr>]\<rparr> 9) 0 (TrimSpace ''doc'') [DeleteContentRange 1 (Max (insert 0 (EndIndex ` set [\<lparr>EndIndex = 5\<rparr>, \<lparr>EndIndex = 12\<rparr>, \<lparr>EndIndex = 7\<rparr>])) - 1)]) = None"
    by (simp add: countingService_def)
  have c1: "\<exists>rest. [(''doc'', [DeleteContentRange 1 11]), (''doc'', [InsertText 1 (''a'' @ [CHR 0x0A])]), (''doc'', [UpdateParagraphStyle 1 3 ''HEADING_1''])] = (TrimSpace ''doc'', [DeleteContentRange 1 (Max (insert 0 (EndIndex ` set [\<lparr>EndIndex = 5\<rparr>, \<lparr>EndIndex = 12\<rparr>, \<lparr>EndIndex = 7\<rparr>])) - 1)]) # (TrimSpace ''doc'', [InsertText 1 (concat (map seg_text (parseMarkdown ''# a'')))]) # rest"
    using C3_write_clears_then_inserts [OF h1 h2 h3 h4 h5 h6] e1 e2 e3 by blast
  show ?thesis
    by (intro conjI h1 h2 h3 h4 h5 h6 e1 e2 e3 c1)
qed

text \<open>
  Claim C10: \<open>append\<close> inserts at index 1 when the fetched document has a nil body or an
  empty content list, and at the \<open>EndIndex\<close> of the last content element otherwise.
\<close>

theorem C10_append_index:
  assumes "requireAccount env = Inr account"
    and "TrimSpace DocID \<noteq> []"
    and "newDocsService env account = Inr (logged svc)"
    and "readInput env File = Inr input"
    and "Get svc st (TrimSpace DocID) = Inr doc"
    and "DocsAppendCmd_Run env DocID File (st, []) = (err, st', cs)"
  shows "(Body doc = None \<or> Body doc = Some [] \<longrightarrow>
            (\<exists>rest. cs = (TrimSpace DocID, [InsertText 1 (concat (map seg_text (parseMarkdown input)))]) # rest))
       \<and> (\<forall>content. Body doc = Some content \<and> content \<noteq> [] \<longrightarrow>
            (\<exists>rest. cs = (TrimSpace DocID, [InsertText (EndIndex (last content)) (concat (map seg_text (parseMarkdown input)))]) # rest))"
proof -
  have run: "writeMarkdownToDoc (logged svc) (TrimSpace DocID) input (appendIndex doc) (st, []) = (err, st', cs)"
    using assms by (simp add: DocsAppendCmd_Run_def Let_def logged_def)
  from writeMarkdownToDoc_first_call [OF run]
  have first: "\<exists>rest. cs = (TrimSpace DocID, [InsertText (appendIndex doc) (concat (map seg_text (parseMarkdown input)))]) # rest"
    by simp
  have "Body doc = None \<or> Body doc = Some [] \<Longrightarrow> appendIndex doc = 1"
    by (auto simp: appendIndex_def)
  moreover have "Body doc = Some content \<and> content \<noteq> [] \<Longrightarrow> appendIndex doc = EndIndex (last content)" for content
    by (auto simp: appendIndex_def last_conv_nth)
  ultimately show ?thesis using first by metis
qed

theorem C10_append_index_witness:
  "(requireAccount (fixedEnv (logged (countingService \<lparr>Body = Some [\<lparr>EndIndex = 12\<rparr>]\<rparr> 9)) ''# a'') = Inr ''account'')
   \<and> (TrimSpace ''doc'' \<noteq> [])
   \<and> (newDocsService (fixedEnv (logged (countingService \<lparr>Body = Some [\<lparr>EndIndex = 12\<rparr>]\<rparr> 9)) ''# a'') ''account'' = Inr (logged (countingService \<lparr>Body = Some [\<lparr>EndIndex = 12\<rparr>]\<rparr> 9)))
   \<and> (readInput (fixedEnv (logged (countingService \<lparr>Body = Some [\<lparr>EndIndex = 12\<rparr>]\<rparr> 9)) ''# a'') [] = Inr ''# a'')
   \<and> (Get (countingService \<lparr>Body = Some [\<lparr>EndIndex = 12\<rparr>]\<rparr> 9) 0 (TrimSpace ''doc'') = Inr \<lparr>Body = Some [\<lparr>EndIndex = 12\<rparr>]\<rparr>)
   \<and> (DocsAppendCmd_Run (fixedEnv (logged (countingService \<lparr>Body = Some [\<lparr>EndIndex = 12\<rparr>]\<rparr> 9)) ''# a'') ''doc'' [] (0, []) = (None, 2, [(''doc'', [InsertText 12 (''a'' @ [CHR 0x0A])]), (''doc'', [UpdateParagraphStyle 12 14 ''HEADING_1''])]))
   \<and> (Body \<lparr>Body = Some [\<lparr>EndIndex = 12\<rparr>]\<rparr> = Some [\<lparr>EndIndex = 12\<rparr>] \<and> [\<lparr>EndIndex = 12\<rparr>] \<noteq> [])
   \<and> (\<exists>rest. [(''doc'', [InsertText 12 (''a'' @ [CHR 0x0A])]), (''doc'', [UpdateParagraphStyle 12 14 ''HEADING_1''])] = (TrimSpace ''doc'', [InsertText (EndIndex (last [\<lparr>EndIndex = 12\<rparr>])) (concat (map seg_text (parseMarkdown ''# a'')))]) # rest)"
proof -
  have h1: "requireAccount (fixedEnv (logged (countingService \<lparr>Body = Some [\<lparr>EndIndex = 12\<rparr>]\<rparr> 9)) ''# a'') = Inr ''account''"
    by (simp add: fixedEnv_def)
  have h2: "TrimSpace ''doc'' \<noteq> []"
    by code_simp
  have h3: "newDocsService (fixedEnv (logged (countingService \<lparr>Body = Some [\<lparr>EndIndex = 12\<rparr>]\<rparr> 9)) ''# a'') ''account'' = Inr (logged (countingService \<lparr>Body = Some [\<lparr>EndIndex = 12\<rparr>]\<rparr> 9))"
    by (simp add: fixedEnv_def)
  have h4: "readInput (fixedEnv (logged (countingService \<lparr>Body = Some [\<lparr>EndIndex = 12\<rparr>]\<rparr> 9)) ''# a'') [] = Inr ''# a''"
    by (simp add: fixedEnv_def)
  have h5: "Get (countingService \<lparr>Body = Some [\<lparr>EndIndex = 12\<rparr>]\<rparr> 9) 0 (TrimSpace ''doc'') = Inr \<lparr>Body = Some [\<lparr>EndIndex = 12\<rparr>]\<rparr>"
    by (simp add: countingService_def)
  have h6: "DocsAppendCmd_Run (fixedEnv (logged (countingService \<lparr>Body = Some [\<lparr>EndIndex = 12\<rparr>]\<rparr> 9)) ''# a'') ''doc'' [] (0, []) = (None, 2, [(''doc'', [InsertText 12 (''a'' @ [CHR 0x0A])]), (''doc'', [UpdateParagraphStyle 12 14 ''HEADING_1''])])"
    by code_simp
  have e1: "Body \<lparr>Body = Some [\<lparr>EndIndex = 12\<rparr>]\<rparr> = Some [\<lparr>EndIndex = 12\<rparr>] \<and> [\<lparr>EndIndex = 12\<rparr>] \<noteq> []"
    by simp
  have c1: "\<exists>rest. [(''doc'', [InsertText 12 (''a'' @ [CHR 0x0A])]), (''doc'', [UpdateParagraphStyle 12 14 ''HEADING_1''])] = (TrimSpace ''doc'', [InsertText (EndIndex (last [\<lparr>EndIndex = 12\<rparr>])) (concat (map seg_text (parseMarkdown ''# a'')))]) # rest"
    using C10_append_index [OF h1 h2 h3 h4 h5 h6] e1 by blast
  show ?thesis
    by (intro conjI h1 h2 h3 h4 h5 h6 e1 c1)
qed

section \<open>Well-formed UTF-8\<close>

text \<open>
  \<open>utf8.ValidString\<close>: no position of the string decodes to the replacement rune of
  width 1. Text that is well-formed stays so when it is cut at an ASCII byte, and the
  UTF-16 length of well-formed text is additive.
\<close>

function validUTF8 :: "string \<Rightarrow> bool" where
  "validUTF8 [] = True"
| "validUTF8 (c # cs) =
     (case decodeRune (c # cs) of
        (r, w) \<Rightarrow> \<not> (r = RuneError \<and> w = 1) \<and> validUTF8 (drop w (c # cs)))"
  by pat_completeness auto
termination
  apply (relation "measure length")
   apply simp
  subgoal for c cs x1 x2
    using decodeRune_width_pos [of c cs] by (cases "decodeRune (c # cs)") auto
  done

lemma seqSize_cases: "seqSize b = 0 \<or> seqSize b = 1 \<or> seqSize b = 2 \<or> seqSize b = 3 \<or> seqSize b = 4"
  by (simp add: seqSize_def)

lemma seqSize_ascii: "seqSize b = 1 \<longleftrightarrow> b < 0x80"
  by (simp add: seqSize_def)

lemma byte_range: "0 \<le> byte c" "byte c < 256"
  unfolding byte_def by (simp_all add: of_char_def)


lemma decodeRune_size0: "seqSize (byte c) = 0 \<Longrightarrow> decodeRune (c # cs) = (RuneError, 1)"
  by (simp add: Let_def)

lemma decodeRune_size1: "seqSize (byte c) = 1 \<Longrightarrow> decodeRune (c # cs) = (byte c, 1)"
  by (simp add: Let_def)

lemma decodeRune_short: "1 < seqSize (byte c) \<Longrightarrow> decodeRune [c] = (RuneError, 1)"
  by (simp add: Let_def)

lemma decodeRune_size2:
  "seqSize (byte c) = 2 \<Longrightarrow> decodeRune (c # c1 # cs) =
     (if byte c1 < acceptLo (byte c) \<or> acceptHi (byte c) < byte c1 then (RuneError, 1)
      else ((byte c mod 32) * 64 + byte c1 mod 64, 2))"
  by (simp add: Let_def)

lemma decodeRune_size3_short:
  "seqSize (byte c) = 3 \<Longrightarrow> decodeRune [c, c1] = (RuneError, 1)"
  by (simp add: Let_def)

lemma decodeRune_size3:
  "seqSize (byte c) = 3 \<Longrightarrow> decodeRune (c # c1 # c2 # cs) =
     (if byte c1 < acceptLo (byte c) \<or> acceptHi (byte c) < byte c1 then (RuneError, 1)
      else if \<not> cont (byte c2) then (RuneError, 1)
      else ((byte c mod 16) * 4096 + (byte c1 mod 64) * 64 + byte c2 mod 64, 3))"
  by (simp add: Let_def)

lemma decodeRune_size4_short:
  "seqSize (byte c) = 4 \<Longrightarrow> decodeRune [c, c1] = (RuneError, 1)"
  "seqSize (byte c) = 4 \<Longrightarrow> decodeRune [c, c1, c2] = (RuneError, 1)"
  by (simp_all add: Let_def)

lemma decodeRune_size4:
  "seqSize (byte c) = 4 \<Longrightarrow> decodeRune (c # c1 # c2 # c3 # cs) =
     (if byte c1 < acceptLo (byte c) \<or> acceptHi (byte c) < byte c1 then (RuneError, 1)
      else if \<not> cont (byte c2) then (RuneError, 1)
      else if \<not> cont (byte c3) then (RuneError, 1)
      else ((byte c mod 8) * 262144 + (byte c1 mod 64) * 4096 + (byte c2 mod 64) * 64 + byte c3 mod 64, 4))"
  by (simp add: Let_def)


declare decodeRune.simps(2) [simp del]

lemma acceptLo_ge: "0x80 \<le> acceptLo b"
  by (simp add: acceptLo_def)

lemma cont_ge: "cont b \<Longrightarrow> 0x80 \<le> b"
  by (simp add: cont_def)

text \<open>
  A rune decoded without error: its width is the size its first byte announces, the bytes
  after the first are not ASCII, and nothing behind them is looked at.
\<close>

lemma decodeRune_ok:
  assumes "decodeRune (c # cs) = (r, w)" and "\<not> (r = RuneError \<and> w = 1)"
  shows "0 < w \<and> w \<le> length (c # cs)
       \<and> (\<forall>k. 0 < k \<and> k < w \<longrightarrow> 0x80 \<le> byte ((c # cs) ! k))
       \<and> (\<forall>t. decodeRune (take w (c # cs) @ t) = (r, w))"
proof -
  consider "seqSize (byte c) = 0" | "seqSize (byte c) = 1" | "seqSize (byte c) = 2"
    | "seqSize (byte c) = 3" | "seqSize (byte c) = 4"
    using seqSize_cases [of "byte c"] by auto
  then show ?thesis
  proof cases
    case 1
    with assms show ?thesis by (simp add: decodeRune_size0)
  next
    case 2
    with assms have rw: "r = byte c" "w = 1" by (simp_all add: decodeRune_size1)
    moreover have "decodeRune (c # t) = (r, w)" for t using 2 rw by (simp add: decodeRune_size1)
    ultimately show ?thesis by simp
  next
    case 3
    show ?thesis
    proof (cases cs)
      case Nil
      with 3 assms show ?thesis by (simp add: decodeRune_short)
    next
      case (Cons c1 rest)
      with 3 assms have ok: "\<not> (byte c1 < acceptLo (byte c) \<or> acceptHi (byte c) < byte c1)"
        and rw: "r = (byte c mod 32) * 64 + byte c1 mod 64" "w = 2"
        by (auto simp: decodeRune_size2 split: if_splits)
      have "0x80 \<le> byte c1" using ok acceptLo_ge [of "byte c"] by simp
      moreover have "decodeRune (c # c1 # t) = (r, w)" for t
        using 3 ok rw by (simp add: decodeRune_size2)
      ultimately show ?thesis using Cons rw by (auto simp: less_Suc_eq numeral_2_eq_2)
    qed
  next
    case 4
    show ?thesis
    proof (cases cs)
      case Nil
      with 4 assms show ?thesis by (simp add: decodeRune_short)
    next
      case (Cons c1 rest)
      show ?thesis
      proof (cases rest)
        case Nil
        with 4 Cons assms show ?thesis by (simp add: decodeRune_size3_short)
      next
        case (Cons c2 rest2)
        with 4 \<open>cs = c1 # rest\<close> assms
        have ok: "\<not> (byte c1 < acceptLo (byte c) \<or> acceptHi (byte c) < byte c1)" "cont (byte c2)"
          and rw: "r = (byte c mod 16) * 4096 + (byte c1 mod 64) * 64 + byte c2 mod 64" "w = 3"
          by (auto simp: decodeRune_size3 split: if_splits)
        have "0x80 \<le> byte c1" "0x80 \<le> byte c2"
          using ok acceptLo_ge [of "byte c"] cont_ge by simp_all
        moreover have "decodeRune (c # c1 # c2 # t) = (r, w)" for t
          using 4 ok rw by (simp add: decodeRune_size3)
        ultimately show ?thesis using Cons \<open>cs = c1 # rest\<close> rw
          by (auto simp: less_Suc_eq numeral_3_eq_3)
      qed
    qed
  next
    case 5
    show ?thesis
    proof (cases cs)
      case Nil
      with 5 assms show ?thesis by (simp add: decodeRune_short)
    next
      case (Cons c1 rest)
      show ?thesis
      proof (cases rest)
        case Nil
        with 5 Cons assms show ?thesis by (simp add: decodeRune_size4_short)
      next
        case (Cons c2 rest2)
        show ?thesis
        proof (cases rest2)
          case Nil
          with 5 Cons \<open>cs = c1 # rest\<close> assms show ?thesis by (simp add: decodeRune_size4_short)
        next
          case (Cons c3 rest3)
          with 5 \<open>cs = c1 # rest\<close> \<open>rest = c2 # rest2\<close> assms
          have ok: "\<not> (byte c1 < acceptLo (byte c) \<or> acceptHi (byte c) < byte c1)"
              "cont (byte c2)" "cont (byte c3)"
            and rw: "r = (byte c mod 8) * 262144 + (byte c1 mod 64) * 4096 + (byte c2 mod 64) * 64 + byte c3 mod 64" "w = 4"
            by (auto simp: decodeRune_size4 split: if_splits)
          have "0x80 \<le> byte c1" "0x80 \<le> byte c2" "0x80 \<le> byte c3"
            using ok acceptLo_ge [of "byte c"] cont_ge by simp_all
          moreover have "decodeRune (c # c1 # c2 # c3 # t) = (r, w)" for t
            using 5 ok rw by (simp add: decodeRune_size4)
          ultimately show ?thesis using Cons \<open>cs = c1 # rest\<close> \<open>rest = c2 # rest2\<close> rw
            by (auto simp: less_Suc_eq eval_nat_numeral)
        qed
      qed
    qed
  qed
qed


lemma decodeRune_ok_append:
  assumes "decodeRune (c # cs) = (r, w)" and "\<not> (r = RuneError \<and> w = 1)"
  shows "decodeRune ((c # cs) @ b) = (r, w)" and "drop w ((c # cs) @ b) = drop w (c # cs) @ b"
proof -
  from decodeRune_ok [OF assms]
  have w: "w \<le> length (c # cs)" and t: "decodeRune (take w (c # cs) @ (drop w (c # cs) @ b)) = (r, w)"
    by blast+
  have "take w (c # cs) @ (drop w (c # cs) @ b) = (c # cs) @ b"
    by (metis append.assoc append_take_drop_id)
  with t show "decodeRune ((c # cs) @ b) = (r, w)" by simp
  from w show "drop w ((c # cs) @ b) = drop w (c # cs) @ b"
    using drop_append [of w "c # cs" b] by simp
qed

lemma utf16CodeUnitCount_append:
  "validUTF8 a \<Longrightarrow> utf16CodeUnitCount (a @ b) = utf16CodeUnitCount a + utf16CodeUnitCount b"
proof (induction a rule: validUTF8.induct)
  case 1
  then show ?case by simp
next
  case (2 c cs)
  obtain r w where rw: "decodeRune (c # cs) = (r, w)" by (cases "decodeRune (c # cs)")
  with "2.prems" have ok: "\<not> (r = RuneError \<and> w = 1)" and v: "validUTF8 (drop w (c # cs))" by simp_all
  note ap = decodeRune_ok_append [OF rw ok, of b]
  have "utf16CodeUnitCount (drop w (c # cs) @ b) = utf16CodeUnitCount (drop w (c # cs)) + utf16CodeUnitCount b"
    using "2.IH" [OF rw [symmetric] v] .
  moreover have "utf16CodeUnitCount ((c # cs) @ b) = (if r \<ge> 0x10000 then 2 else 1) + utf16CodeUnitCount (drop w ((c # cs) @ b))"
    using ap(1) by simp
  moreover have "utf16CodeUnitCount (c # cs) = (if r \<ge> 0x10000 then 2 else 1) + utf16CodeUnitCount (drop w (c # cs))"
    using rw by simp
  ultimately show ?case using ap(2) by simp
qed

lemma validUTF8_append:
  "validUTF8 a \<Longrightarrow> validUTF8 b \<Longrightarrow> validUTF8 (a @ b)"
proof (induction a rule: validUTF8.induct)
  case 1
  then show ?case by simp
next
  case (2 c cs)
  obtain r w where rw: "decodeRune (c # cs) = (r, w)" by (cases "decodeRune (c # cs)")
  with "2.prems" have ok: "\<not> (r = RuneError \<and> w = 1)" and v: "validUTF8 (drop w (c # cs))" by simp_all
  note ap = decodeRune_ok_append [OF rw ok, of b]
  have "validUTF8 (drop w (c # cs) @ b)"
    using "2.IH" [OF rw [symmetric] v "2.prems"(2)] .
  moreover have "validUTF8 ((c # cs) @ b) = (\<not> (r = RuneError \<and> w = 1) \<and> validUTF8 (drop w ((c # cs) @ b)))"
    using ap(1) by simp
  ultimately show ?case using ap(2) ok by simp
qed

lemma validUTF8_split_ascii:
  "validUTF8 (a @ x # b) \<Longrightarrow> byte x < 0x80 \<Longrightarrow> validUTF8 a \<and> validUTF8 b"
proof (induction "length a" arbitrary: a rule: less_induct)
  case less
  show ?case
  proof (cases a)
    case Nil
    have "decodeRune (x # b) = (byte x, 1)"
      using less.prems(2) decodeRune_size1 [of x b] seqSize_ascii [of "byte x"] by simp
    with less.prems(1) Nil show ?thesis by simp
  next
    case (Cons c cs)
    obtain r w where rw: "decodeRune (c # (cs @ x # b)) = (r, w)" by (cases "decodeRune (c # (cs @ x # b))")
    with less.prems(1) Cons have ok: "\<not> (r = RuneError \<and> w = 1)"
      and v: "validUTF8 (drop w (c # (cs @ x # b)))" by simp_all
    from decodeRune_ok [OF rw ok]
    have w: "0 < w" and hi: "\<forall>k. 0 < k \<and> k < w \<longrightarrow> 0x80 \<le> byte ((c # (cs @ x # b)) ! k)"
      and t: "\<forall>t. decodeRune (take w (c # (cs @ x # b)) @ t) = (r, w)" by blast+
    have wa: "w \<le> length a"
    proof (rule ccontr)
      assume "\<not> w \<le> length a"
      then have "0 < length a \<and> length a < w" using Cons by simp
      with hi have "0x80 \<le> byte ((c # (cs @ x # b)) ! length a)" by blast
      moreover have "(c # (cs @ x # b)) ! length a = x" using Cons by (simp add: nth_append)
      ultimately show False using less.prems(2) by simp
    qed
    then have tk: "take w (c # (cs @ x # b)) = take w a" and dr: "drop w (c # (cs @ x # b)) = drop w a @ x # b"
      using Cons take_append [of w a "x # b"] drop_append [of w a "x # b"] by simp_all
    from t tk have "decodeRune (take w a @ drop w a) = (r, w)" by metis
    then have da: "decodeRune (c # cs) = (r, w)" using Cons by simp
    have "length (drop w a) < length a" using w Cons by simp
    from less.hyps [OF this] v dr less.prems(2)
    have "validUTF8 (drop w a) \<and> validUTF8 b" by simp
    then show ?thesis using da ok Cons by simp
  qed
qed

lemma utf16CodeUnitCount_nonneg: "0 \<le> utf16CodeUnitCount s"
proof (induction s rule: utf16CodeUnitCount.induct)
  case 1
  then show ?case by simp
next
  case (2 c cs)
  obtain r w where rw: "decodeRune (c # cs) = (r, w)" by (cases "decodeRune (c # cs)")
  with 2 [OF rw [symmetric]] show ?case by simp
qed

lemma ascii_string:
  "\<forall>c \<in> set s. byte c < 0x80 \<Longrightarrow> validUTF8 s \<and> utf16CodeUnitCount s = int (length s)"
proof (induction s)
  case Nil
  then show ?case by simp
next
  case (Cons c cs)
  then have "decodeRune (c # cs) = (byte c, 1)"
    using decodeRune_size1 [of c cs] seqSize_ascii [of "byte c"] by simp
  moreover have "byte c \<noteq> RuneError" using Cons.prems by (auto simp: RuneError_def)
  moreover have "\<not> byte c \<ge> 0x10000" using Cons.prems by auto
  ultimately show ?case using Cons by simp
qed

section \<open>Where \<open>strings.Index\<close> finds the markers\<close>

lemma Index_found:
  "Index s p \<noteq> - 1 \<Longrightarrow> s = take (nat (Index s p)) s @ p @ drop (nat (Index s p) + length p) s"
proof (induction s)
  case Nil
  then show ?case by (simp split: if_splits)
next
  case (Cons c cs)
  show ?case
  proof (cases "HasPrefix (c # cs) p")
    case True
    then have "c # cs = p @ drop (length p) (c # cs)"
      unfolding HasPrefix_def by (metis append_take_drop_id)
    with True show ?thesis by simp
  next
    case False
    with Cons.prems have n: "Index cs p \<noteq> - 1" and i: "Index (c # cs) p = Index cs p + 1"
      by (auto simp: Let_def split: if_splits)
    have "0 \<le> Index cs p" using Index_range [of cs p] n by auto
    then have "nat (Index cs p + 1) = Suc (nat (Index cs p))" by simp
    with Cons.IH [OF n] i show ?thesis by simp
  qed
qed

lemma Index_star_closed:
  "Index s ''*'' = (if CHR ''*'' \<in> set s then int (length (takeWhile (\<lambda>c. c \<noteq> CHR ''*'') s)) else - 1)"
  by (induction s) (auto simp: HasPrefix_def Let_def)

lemma Index_star_none: "Index s ''*'' = - 1 \<longleftrightarrow> CHR ''*'' \<notin> set s"
  by (simp add: Index_star_closed)

lemma Index_star_before: "Index s ''*'' \<noteq> - 1 \<Longrightarrow> CHR ''*'' \<notin> set (take (nat (Index s ''*'')) s)"
proof -
  assume "Index s ''*'' \<noteq> - 1"
  then have "take (nat (Index s ''*'')) s = takeWhile (\<lambda>c. c \<noteq> CHR ''*'') s"
    using takeWhile_eq_take [of "\<lambda>c. c \<noteq> CHR ''*''" s] by (simp add: Index_star_closed split: if_splits)
  then show ?thesis by (auto dest: set_takeWhileD)
qed

lemma Index_2star_none: "CHR ''*'' \<notin> set s \<Longrightarrow> Index s ''**'' = - 1"
  by (induction s) (auto simp: HasPrefix_def Let_def)

lemma Index_star_le_2star:
  "Index s ''**'' \<noteq> - 1 \<Longrightarrow> Index s ''*'' \<noteq> - 1 \<and> Index s ''*'' \<le> Index s ''**''"
proof (induction s)
  case Nil
  then show ?case by simp
next
  case (Cons c cs)
  then show ?case
    using Index_range [of cs "''**''"] Index_range [of cs "''*''"]
    by (auto simp: HasPrefix_def Let_def split: if_splits)
qed

lemma Index_star_at: "CHR ''*'' \<notin> set pre \<Longrightarrow> Index (pre @ CHR ''*'' # rest) ''*'' = int (length pre)"
  by (induction pre) (auto simp: HasPrefix_def Let_def)

lemma Index_2star_at:
  "CHR ''*'' \<notin> set pre \<Longrightarrow> Index (pre @ ''**'' @ rest) ''**'' = int (length pre)"
  by (induction pre) (auto simp: HasPrefix_def Let_def)

section \<open>The scan keeps its offsets in step with the text\<close>

text \<open>
  A range lies in a text when it covers a piece \<open>b\<close> of it after a piece \<open>a\<close>, with its
  start and end the UTF-16 lengths of \<open>a\<close> and of \<open>a\<close> with \<open>b\<close>. On well-formed text the
  scan keeps \<open>currentOffset\<close> equal to the UTF-16 length of \<open>cleanText\<close> and every recorded
  range inside \<open>cleanText\<close>.
\<close>

definition rangeIn :: "string \<Rightarrow> formatRange \<Rightarrow> bool" where
  "rangeIn c r \<longleftrightarrow>
     (\<exists>a b d. c = a @ b @ d \<and> validUTF8 a \<and> validUTF8 b
        \<and> rstart r = utf16CodeUnitCount a \<and> rend r = utf16CodeUnitCount a + utf16CodeUnitCount b)"

definition scanOK :: "scan \<Rightarrow> bool" where
  "scanOK s \<longleftrightarrow>
     (case s of (t, c, off, rs) \<Rightarrow>
        validUTF8 t \<and> validUTF8 c \<and> off = utf16CodeUnitCount c
        \<and> (\<forall>r\<in>set rs. rangeIn c r \<and> bold r \<noteq> italic r))"

lemma rangeIn_extend: "rangeIn c r \<Longrightarrow> rangeIn (c @ x) r"
  unfolding rangeIn_def by (metis append.assoc)

lemma star_ascii: "byte (CHR ''*'') < 0x80"
  by (simp add: byte_def)

lemma stars_count:
  "validUTF8 ''*''" "validUTF8 ''**''" "utf16CodeUnitCount ''*'' = 1" "utf16CodeUnitCount ''**'' = 2"
  using ascii_string [of "''*''"] ascii_string [of "''**''"] star_ascii by simp_all

lemma valid_around_marker:
  assumes "validUTF8 t" and "Index t p \<noteq> - 1" and "p = ''*'' \<or> p = ''**''"
  shows "validUTF8 (take (nat (Index t p)) t) \<and> validUTF8 (drop (nat (Index t p) + length p) t)"
proof -
  let ?i = "nat (Index t p)"
  from Index_found [OF assms(2)] have t: "t = take ?i t @ p @ drop (?i + length p) t" .
  from assms(3) show ?thesis
  proof
    assume p: "p = ''*''"
    with t have "t = take ?i t @ CHR ''*'' # drop (?i + length p) t" by simp
    with assms(1) validUTF8_split_ascii [of "take ?i t" "CHR ''*''" "drop (?i + length p) t"] star_ascii
    show ?thesis by simp
  next
    assume p: "p = ''**''"
    with t have t': "t = take ?i t @ CHR ''*'' # (CHR ''*'' # drop (?i + length p) t)" by simp
    with assms(1) validUTF8_split_ascii [of "take ?i t" "CHR ''*''" "CHR ''*'' # drop (?i + length p) t"] star_ascii
    have a: "validUTF8 (take ?i t)" and b: "validUTF8 ([] @ CHR ''*'' # drop (?i + length p) t)" by simp_all
    from validUTF8_split_ascii [OF b star_ascii] a show ?thesis by simp
  qed
qed

lemma scan_record:
  assumes inv: "scanOK (t, c, off, rs)"
    and x: "validUTF8 x" and y: "validUTF8 y" and t': "validUTF8 t'"
    and flags: "b \<noteq> i"
  shows "scanOK (t', c @ x @ y, off + utf16CodeUnitCount x + utf16CodeUnitCount y,
           rs @ [\<lparr>rstart = off + utf16CodeUnitCount x,
                   rend = off + utf16CodeUnitCount x + utf16CodeUnitCount y, bold = b, italic = i\<rparr>])"
proof -
  from inv have c: "validUTF8 c" and off: "off = utf16CodeUnitCount c"
    and rs: "\<forall>r\<in>set rs. rangeIn c r \<and> bold r \<noteq> italic r" by (simp_all add: scanOK_def)
  have cx: "validUTF8 (c @ x)" using c x by (rule validUTF8_append)
  have cxy: "validUTF8 (c @ x @ y)" using validUTF8_append [OF cx y] by simp
  have n1: "utf16CodeUnitCount (c @ x) = off + utf16CodeUnitCount x"
    using utf16CodeUnitCount_append [OF c] off by simp
  have n2: "utf16CodeUnitCount (c @ x @ y) = off + utf16CodeUnitCount x + utf16CodeUnitCount y"
    using utf16CodeUnitCount_append [OF cx, of y] n1 by simp
  have new: "rangeIn (c @ x @ y) \<lparr>rstart = off + utf16CodeUnitCount x,
                   rend = off + utf16CodeUnitCount x + utf16CodeUnitCount y, bold = b, italic = i\<rparr>"
    unfolding rangeIn_def
    by (rule exI [of _ "c @ x"], rule exI [of _ y], rule exI [of _ "[]"]) (simp add: cx y n1)
  have old: "\<forall>r\<in>set rs. rangeIn (c @ x @ y) r \<and> bold r \<noteq> italic r"
    using rs rangeIn_extend [of c _ "x @ y"] by blast
  show ?thesis
    unfolding scanOK_def using t' cxy n2 new old flags by simp
qed

lemma scan_literal:
  assumes inv: "scanOK (t, c, off, rs)"
    and x: "validUTF8 x" and y: "validUTF8 y" and t': "validUTF8 t'"
  shows "scanOK (t', c @ x @ y, off + utf16CodeUnitCount x + utf16CodeUnitCount y, rs)"
proof -
  from inv have c: "validUTF8 c" and off: "off = utf16CodeUnitCount c"
    and rs: "\<forall>r\<in>set rs. rangeIn c r \<and> bold r \<noteq> italic r" by (simp_all add: scanOK_def)
  have cx: "validUTF8 (c @ x)" using c x by (rule validUTF8_append)
  have cxy: "validUTF8 (c @ x @ y)" using validUTF8_append [OF cx y] by simp
  have n1: "utf16CodeUnitCount (c @ x) = off + utf16CodeUnitCount x"
    using utf16CodeUnitCount_append [OF c] off by simp
  have n2: "utf16CodeUnitCount (c @ x @ y) = off + utf16CodeUnitCount x + utf16CodeUnitCount y"
    using utf16CodeUnitCount_append [OF cx, of y] n1 by simp
  have old: "\<forall>r\<in>set rs. rangeIn (c @ x @ y) r \<and> bold r \<noteq> italic r"
    using rs rangeIn_extend [of c _ "x @ y"] by blast
  show ?thesis
    unfolding scanOK_def using t' cxy n2 old by simp
qed

text \<open>The two branches, by whether the closing marker is found.\<close>

lemma boldBranch_closed:
  "Index (drop (nat b + 2) t) ''**'' \<noteq> - 1 \<Longrightarrow>
   boldBranch t c off rs b =
     (drop (nat (Index (drop (nat b + 2) t) ''**'') + 2) (drop (nat b + 2) t),
      c @ take (nat b) t @ take (nat (Index (drop (nat b + 2) t) ''**'')) (drop (nat b + 2) t),
      off + utf16CodeUnitCount (take (nat b) t)
        + utf16CodeUnitCount (take (nat (Index (drop (nat b + 2) t) ''**'')) (drop (nat b + 2) t)),
      rs @ [\<lparr>rstart = off + utf16CodeUnitCount (take (nat b) t),
              rend = off + utf16CodeUnitCount (take (nat b) t)
                + utf16CodeUnitCount (take (nat (Index (drop (nat b + 2) t) ''**'')) (drop (nat b + 2) t)),
              bold = True, italic = False\<rparr>])"
  by (simp add: boldBranch_def Let_def)

lemma boldBranch_open:
  "Index (drop (nat b + 2) t) ''**'' = - 1 \<Longrightarrow>
   boldBranch t c off rs b =
     (drop (nat b + 2) t, c @ take (nat b) t @ ''**'',
      off + utf16CodeUnitCount (take (nat b) t) + utf16CodeUnitCount ''**'', rs)"
  by (simp add: boldBranch_def Let_def stars_count del: utf16CodeUnitCount.simps)

lemma italicBranch_closed:
  "Index (drop (nat b + 1) t) ''*'' \<noteq> - 1 \<Longrightarrow>
   italicBranch t c off rs b =
     (drop (nat (Index (drop (nat b + 1) t) ''*'') + 1) (drop (nat b + 1) t),
      c @ take (nat b) t @ take (nat (Index (drop (nat b + 1) t) ''*'')) (drop (nat b + 1) t),
      off + utf16CodeUnitCount (take (nat b) t)
        + utf16CodeUnitCount (take (nat (Index (drop (nat b + 1) t) ''*'')) (drop (nat b + 1) t)),
      rs @ [\<lparr>rstart = off + utf16CodeUnitCount (take (nat b) t),
              rend = off + utf16CodeUnitCount (take (nat b) t)
                + utf16CodeUnitCount (take (nat (Index (drop (nat b + 1) t) ''*'')) (drop (nat b + 1) t)),
              bold = False, italic = True\<rparr>])"
  by (simp add: italicBranch_def Let_def)

lemma italicBranch_open:
  "Index (drop (nat b + 1) t) ''*'' = - 1 \<Longrightarrow>
   italicBranch t c off rs b =
     (drop (nat b + 1) t, c @ take (nat b) t @ ''*'',
      off + utf16CodeUnitCount (take (nat b) t) + utf16CodeUnitCount ''*'', rs)"
  by (simp add: italicBranch_def Let_def stars_count del: utf16CodeUnitCount.simps)

lemma boldBranch_scanOK:
  assumes inv: "scanOK (t, c, off, rs)" and b: "Index t ''**'' \<noteq> - 1"
  shows "scanOK (boldBranch t c off rs (Index t ''**''))"
proof -
  let ?b = "nat (Index t ''**'')"
  let ?t2 = "drop (?b + 2) t"
  from inv have vt: "validUTF8 t" by (simp add: scanOK_def)
  from valid_around_marker [OF vt b] have v1: "validUTF8 (take ?b t)" and v2: "validUTF8 ?t2" by simp_all
  show ?thesis
  proof (cases "Index ?t2 ''**'' = - 1")
    case True
    show ?thesis unfolding boldBranch_open [OF True]
      by (rule scan_literal [OF inv v1 stars_count(2) v2])
  next
    case False
    let ?j = "nat (Index ?t2 ''**'')"
    from valid_around_marker [OF v2 False] have v3: "validUTF8 (take ?j ?t2)" and v4: "validUTF8 (drop (?j + 2) ?t2)"
      by simp_all
    show ?thesis unfolding boldBranch_closed [OF False]
      by (rule scan_record [OF inv v1 v3 v4]) simp
  qed
qed

lemma italicBranch_scanOK:
  assumes inv: "scanOK (t, c, off, rs)" and b: "Index t ''*'' \<noteq> - 1"
  shows "scanOK (italicBranch t c off rs (Index t ''*''))"
proof -
  let ?b = "nat (Index t ''*'')"
  let ?t2 = "drop (?b + 1) t"
  from inv have vt: "validUTF8 t" by (simp add: scanOK_def)
  from valid_around_marker [OF vt b] have v1: "validUTF8 (take ?b t)" and v2: "validUTF8 ?t2" by simp_all
  show ?thesis
  proof (cases "Index ?t2 ''*'' = - 1")
    case True
    show ?thesis unfolding italicBranch_open [OF True]
      by (rule scan_literal [OF inv v1 stars_count(1) v2])
  next
    case False
    let ?j = "nat (Index ?t2 ''*'')"
    from valid_around_marker [OF v2 False] have v3: "validUTF8 (take ?j ?t2)" and v4: "validUTF8 (drop (?j + 1) ?t2)"
      by simp_all
    show ?thesis unfolding italicBranch_closed [OF False]
      by (rule scan_record [OF inv v1 v3 v4]) simp
  qed
qed

lemma inlineStep_scanOK:
  assumes "scanOK (t, c, off, rs)"
  shows "scanOK (inlineStep t c off rs)"
  using assms boldBranch_scanOK [OF assms] italicBranch_scanOK [OF assms]
  unfolding inlineStep_def Let_def by auto

lemma inlineLoop_last:
  "Index t ''**'' = - 1 \<Longrightarrow> Index t ''*'' = - 1 \<Longrightarrow> inlineLoop t c off rs = (c @ t, rs)"
  by (subst inlineLoop.simps) simp

lemma inlineLoop_next:
  "\<not> (Index t ''**'' = - 1 \<and> Index t ''*'' = - 1) \<Longrightarrow> inlineStep t c off rs = (t1, c1, o1, rs1) \<Longrightarrow>
     inlineLoop t c off rs = inlineLoop t1 c1 o1 rs1"
  by (subst inlineLoop.simps, subst if_not_P, assumption, simp)

lemma inlineLoop_scanOK:
  "scanOK (t, c, off, rs) \<Longrightarrow> inlineLoop t c off rs = (clean, rs') \<Longrightarrow>
     scanOK ([], clean, utf16CodeUnitCount clean, rs')"
proof (induction t c off rs rule: inlineLoop.induct)
  case (1 t c off rs)
  show ?case
  proof (cases "Index t ''**'' = - 1 \<and> Index t ''*'' = - 1")
    case True
    with "1.prems"(2) have r: "clean = c @ t" "rs' = rs" by (simp_all add: inlineLoop_last)
    have vt: "validUTF8 t" using "1.prems"(1) by (simp add: scanOK_def)
    from scan_literal [OF "1.prems"(1) vt, of "[]" "[]"] 
    show ?thesis unfolding r by (simp add: scanOK_def)
  next
    case False
    obtain t1 c1 o1 rs1 where st: "inlineStep t c off rs = (t1, c1, o1, rs1)"
      by (cases "inlineStep t c off rs") auto
    from False "1.prems"(2) have l: "inlineLoop t1 c1 o1 rs1 = (clean, rs')"
      by (simp add: inlineLoop_next [OF False st])
    have i: "scanOK (t1, c1, o1, rs1)" using inlineStep_scanOK [OF "1.prems"(1)] st by simp
    show ?thesis by (rule "1.IH" [OF False st [symmetric] refl refl i l])
  qed
qed

end
